theory Spec2Isabelle
  imports Main "HOL-Library.Product_Lexorder" "HOL-Library.AList"
begin

section \<open>Strings and paths as the cleanup core uses them\<close>

text \<open>
  Python strings are modelled as \<^typ>\<open>string\<close>, one \<^typ>\<open>char\<close> per code point below 256.
  \<open>is_space\<close> lists the code points below 256 that \<^verbatim>\<open>str.strip()\<close> removes.
\<close>

definition is_space :: "char \<Rightarrow> bool" where
  "is_space c = (c \<in> set [CHR 0x09, CHR 0x0A, CHR 0x0B, CHR 0x0C, CHR 0x0D,
                          CHR 0x1C, CHR 0x1D, CHR 0x1E, CHR 0x1F, CHR 0x20,
                          CHR 0x85, CHR 0xA0])"

definition strip :: "string \<Rightarrow> string" where
  "strip s = rev (dropWhile is_space (rev (dropWhile is_space s)))"

text \<open>\<^verbatim>\<open>s.startswith(p)\<close>, \<^verbatim>\<open>s.endswith(p)\<close> and \<^verbatim>\<open>sub in s\<close>.\<close>

fun startswith :: "string \<Rightarrow> string \<Rightarrow> bool" where
  "startswith s [] = True"
| "startswith [] (p # ps) = False"
| "startswith (c # s) (p # ps) = (c = p \<and> startswith s ps)"

definition endswith :: "string \<Rightarrow> string \<Rightarrow> bool" where
  "endswith s p = startswith (rev s) (rev p)"

fun contains :: "string \<Rightarrow> string \<Rightarrow> bool" where
  "contains [] sub = (sub = [])"
| "contains (c # s) sub = (startswith (c # s) sub \<or> contains s sub)"

text \<open>\<^verbatim>\<open>os.path.basename(p)\<close>: what follows the last slash.\<close>

definition basename :: "string \<Rightarrow> string" where
  "basename p = rev (takeWhile (\<lambda>c. c \<noteq> CHR ''/'') (rev p))"

text \<open>\<^verbatim>\<open>a or b\<close> on an optional string: \<^verbatim>\<open>None\<close> and the empty string are falsy.\<close>

definition or_else :: "string option \<Rightarrow> string \<Rightarrow> string" where
  "or_else v d = (case v of None \<Rightarrow> d | Some s \<Rightarrow> if s = [] then d else s)"

section \<open>Environment switches\<close>

text \<open>
  \<^verbatim>\<open>env_int(name, default, minimum)\<close> reads one switch of the process environment.
  Python's built-in \<^verbatim>\<open>int()\<close> is a parameter \<open>to_int\<close> (\<open>None\<close> where it raises
  \<^verbatim>\<open>ValueError\<close>); the printed warning is returned next to the value.
\<close>

datatype warning = MustBeInteger string int

definition env_int ::
  "(string \<Rightarrow> int option) \<Rightarrow> (string \<rightharpoonup> string) \<Rightarrow> string \<Rightarrow> int \<Rightarrow> int \<Rightarrow> int \<times> warning option" where
  "env_int to_int environ name dflt minimum =
     (let raw = strip (case environ name of None \<Rightarrow> [] | Some v \<Rightarrow> v) in
      if raw = [] then (dflt, None)
      else (case to_int raw of
              None \<Rightarrow> (dflt, Some (MustBeInteger name dflt))
            | Some val \<Rightarrow> if val < minimum then (minimum, None) else (val, None)))"

definition min_process_age_secs ::
  "(string \<Rightarrow> int option) \<Rightarrow> (string \<rightharpoonup> string) \<Rightarrow> int \<times> warning option" where
  "min_process_age_secs to_int environ =
     env_int to_int environ ''AOC_CLEANUP_MIN_PROCESS_AGE_SECS'' 0 0"

text \<open>
  An instance of \<open>py_int\<close> for concrete runs: an optional sign followed by ASCII digits.
  Python's \<^verbatim>\<open>int()\<close> agrees with it on these literals; the other forms Python accepts
  (underscores between digits, digits beyond ASCII) are not covered by this instance.
\<close>

definition digit_of :: "char \<Rightarrow> nat option" where
  "digit_of c =
     map_of [(CHR ''0'', 0), (CHR ''1'', 1), (CHR ''2'', 2), (CHR ''3'', 3), (CHR ''4'', 4),
             (CHR ''5'', 5), (CHR ''6'', 6), (CHR ''7'', 7), (CHR ''8'', 8), (CHR ''9'', 9)] c"

fun digits_value :: "nat \<Rightarrow> string \<Rightarrow> nat option" where
  "digits_value acc [] = Some acc"
| "digits_value acc (c # cs) =
     (case digit_of c of None \<Rightarrow> None | Some d \<Rightarrow> digits_value (10 * acc + d) cs)"

definition int_literal :: "string \<Rightarrow> int option" where
  "int_literal s =
     (case s of
        [] \<Rightarrow> None
      | c # cs \<Rightarrow>
          if c = CHR ''-'' then (if cs = [] then None else map_option (\<lambda>n. - int n) (digits_value 0 cs))
          else if c = CHR ''+'' then (if cs = [] then None else map_option int (digits_value 0 cs))
          else map_option int (digits_value 0 s))"

section \<open>The world one cleanup pass reads\<close>

text \<open>
  One ps row, as \<^verbatim>\<open>get_process_map\<close> stores it under its pid.
\<close>

record proc_info =
  p_ppid :: int
  p_etimes :: "int option"
  p_tty :: string
  p_comm :: string
  p_args :: string

text \<open>
  A Python \<^verbatim>\<open>dict\<close> keeps its keys in insertion order and holds each key once: an
  association list, written to with \<^const>\<open>AList.update\<close>. A Python \<^verbatim>\<open>set\<close> of pids is a
  list read through \<^const>\<open>set\<close>; where the source enumerates such a set, the order of the
  list stands for the unspecified order of the enumeration.
\<close>

type_synonym process_map = "(int \<times> proc_info) list"
type_synonym children_map = "(int \<times> int list) list"

datatype remove_outcome = Removed | RemoveFailed

text \<open>
  A telemetry file \<^verbatim>\<open><root>/<session>/<file>\<close>. \<open>f_pid\<close> is the value of
  \<^verbatim>\<open>int(snapshot.get("pid") or 0)\<close>, or \<open>None\<close> when opening, decoding or converting
  raises. \<open>f_remove\<close> is what \<^verbatim>\<open>os.remove\<close> does with the file: \<open>RemoveFailed\<close> stands for
  both \<^verbatim>\<open>except\<close> branches of the source.
\<close>

record snapshot_file =
  f_name :: string
  f_pid :: "int option"
  f_remove :: remove_outcome

text \<open>
  An entry of the telemetry root. \<open>d_files\<close> is what \<^verbatim>\<open>os.listdir\<close> gives for it, or
  \<open>None\<close> when that call raises.
\<close>

record session_dir =
  d_name :: string
  d_is_dir :: bool
  d_files :: "snapshot_file list option"

datatype telemetry_root = NotADirectory | RootListdirRaises | RootEntries "session_dir list"

text \<open>
  The call of \<^verbatim>\<open>ps\<close>: its rows after the header, each already split by
  \<^verbatim>\<open>line.strip().split(None, 5)\<close>; or \<^verbatim>\<open>CalledProcessError\<close>, the one exception
  \<^verbatim>\<open>get_process_map\<close> catches; or any other exception (no \<^verbatim>\<open>ps\<close> to run, output that
  cannot be decoded).
\<close>

datatype ps_result = PsRows "string list list" | PsCalledProcessError | PsRaises

datatype signal = SIGTERM | SIGKILL

text \<open>
  One call of \<^verbatim>\<open>os.kill\<close>: it returns, or raises \<^verbatim>\<open>ProcessLookupError\<close> (caught), or
  raises another \<^verbatim>\<open>OSError\<close> such as \<^verbatim>\<open>PermissionError\<close> (not caught).
\<close>

datatype kill_result = Delivered | ProcessLookupError | OtherOSError

text \<open>
  Everything a pass reads from outside, and what its external calls do. Where the source
  catches the exceptions of a call, the failure is a value the model gives the call
  (\<open>None\<close>, the empty string, \<open>RemoveFailed\<close>). Three calls are not guarded so:
  \<^verbatim>\<open>ps\<close> (only \<^verbatim>\<open>CalledProcessError\<close> is caught), \<^verbatim>\<open>os.kill\<close> (only
  \<^verbatim>\<open>ProcessLookupError\<close> is caught) and \<^verbatim>\<open>os.listdir\<close> (nothing is caught); an
  exception they raise and the source does not catch ends the pass where it is raised.
  \<^item> \<open>ps_call\<close>: what the call of \<^verbatim>\<open>ps\<close> does.
  \<^item> \<open>os_kill\<close>: what \<^verbatim>\<open>os.kill(pid, signal)\<close> does.
  \<^item> \<open>proc_env\<close>, \<open>proc_cwd\<close>: the functions of the same name (empty on failure); the
    per-run cache makes each pid's environment one fixed value for the whole pass.
  \<^item> \<open>lease_line\<close>: the first line of a lease file, \<open>None\<close> when reading raises.
  \<^item> \<open>session_filter\<close>, \<open>all_sessions\<close>, \<open>active_commands\<close>, \<open>agent_cwds\<close>,
    \<open>expected_cwds\<close>, \<open>expected_ids\<close>, \<open>active_panes_by_session\<close>: the results of
    \<^verbatim>\<open>parse_session_filter\<close>, \<^verbatim>\<open>list_sessions\<close>, \<^verbatim>\<open>build_active_sets\<close> and
    \<^verbatim>\<open>build_active_pane_map\<close>. Counters hold sums of positive tab counts.
  \<^item> \<open>telemetry\<close>: the telemetry root: not a directory, or its entries, or
    \<^verbatim>\<open>os.listdir\<close> raising on it.
  \<^item> \<open>py_int\<close>, \<open>shlex_split\<close>, \<open>agent_name_search\<close>, \<open>socket_re_search\<close>: Python's
    \<^verbatim>\<open>int()\<close> and \<^verbatim>\<open>shlex.split()\<close> (\<open>None\<close> where they raise), whether
    \<^verbatim>\<open>AGENT_NAME_PATTERN.search\<close> finds a match, and group 2 of the tmux socket pattern.
\<close>

record world =
  ps_call :: ps_result
  os_kill :: "int \<Rightarrow> signal \<Rightarrow> kill_result"
  my_pid :: int
  proc_env :: "int \<Rightarrow> (string \<rightharpoonup> string)"
  proc_cwd :: "int \<Rightarrow> string"
  lease_line :: "string \<rightharpoonup> string"
  session_filter :: "string set option"
  all_sessions :: "string list"
  pane_strict :: bool
  dry_run :: bool
  require_active_signals :: bool
  skip_if_no_sessions :: bool
  min_age_secs :: int
  active_commands :: "string list"
  agent_cwds :: "string list"
  expected_cwds :: "(string \<times> nat) list"
  expected_ids :: "(string \<times> nat) list"
  active_panes_by_session :: "(string \<times> string set) list"
  telemetry :: telemetry_root
  py_int :: "string \<Rightarrow> int option"
  shlex_split :: "string \<Rightarrow> string list option"
  agent_name_search :: "string \<Rightarrow> bool"
  socket_re_search :: "string \<Rightarrow> string option"

section \<open>ProcessTableSnapshot\<close>

definition children_get :: "children_map \<Rightarrow> int \<Rightarrow> int list" where
  "children_get children k = (case map_of children k of None \<Rightarrow> [] | Some cs \<Rightarrow> cs)"

definition add_row ::
  "(string \<Rightarrow> int option) \<Rightarrow> process_map \<times> children_map \<Rightarrow> string list
     \<Rightarrow> process_map \<times> children_map" where
  "add_row to_int acc parts =
     (case acc of (processes, children) \<Rightarrow>
      if length parts < 6 then acc
      else (case to_int (parts ! 0) of
              None \<Rightarrow> acc
            | Some pid \<Rightarrow>
               (case to_int (parts ! 1) of
                  None \<Rightarrow> acc
                | Some ppid \<Rightarrow>
                    (AList.update pid
                       \<lparr>p_ppid = ppid, p_etimes = to_int (parts ! 2), p_tty = parts ! 3,
                        p_comm = parts ! 4, p_args = parts ! 5\<rparr> processes,
                     AList.update ppid (children_get children ppid @ [pid]) children))))"

text \<open>
  \<^verbatim>\<open>get_process_map\<close> returns the two maps, empty ones on \<^verbatim>\<open>CalledProcessError\<close>; any
  other exception of the call leaves the function (\<open>None\<close>).
\<close>

definition get_process_map ::
  "(string \<Rightarrow> int option) \<Rightarrow> ps_result \<Rightarrow> (process_map \<times> children_map) option" where
  "get_process_map to_int ps_out =
     (case ps_out of
        PsCalledProcessError \<Rightarrow> Some ([], [])
      | PsRaises \<Rightarrow> None
      | PsRows rows \<Rightarrow> Some (foldl (add_row to_int) ([], []) rows))"

section \<open>SafeTreeComputer\<close>

text \<open>
  The inner \<^verbatim>\<open>for child in children_map.get(curr, [])\<close> of \<^verbatim>\<open>get_descendants\<close>; the
  head of the stack is its top.
\<close>

fun visit_children :: "int list \<Rightarrow> int list \<Rightarrow> int list \<Rightarrow> int list \<times> int list" where
  "visit_children safe stack [] = (safe, stack)"
| "visit_children safe stack (child # cs) =
     (if child \<in> set safe then visit_children safe stack cs
      else visit_children (safe @ [child]) (child # stack) cs)"

definition child_universe :: "children_map \<Rightarrow> int set" where
  "child_universe children = (\<Union>e \<in> set children. set (snd e))"

function descend :: "children_map \<Rightarrow> int list \<Rightarrow> int list \<Rightarrow> int list" where
  "descend children safe [] = safe"
| "descend children safe (cur # stack) =
     (case visit_children safe stack (children_get children cur) of
        (safe', stack') \<Rightarrow> descend children safe' stack')"
  by pat_completeness auto

definition get_descendants :: "int list \<Rightarrow> children_map \<Rightarrow> int list" where
  "get_descendants roots children_map = descend children_map roots (rev roots)"

definition find_safe_tmux_sockets ::
  "(string \<Rightarrow> string option) \<Rightarrow> int list \<Rightarrow> process_map \<Rightarrow> string list" where
  "find_safe_tmux_sockets socket_re safe_pids processes =
     concat (map (\<lambda>pid. case map_of processes pid of
                           None \<Rightarrow> []
                         | Some info \<Rightarrow>
                             if contains (p_args info) ''tmux''
                             then (case socket_re (p_args info) of None \<Rightarrow> [] | Some s \<Rightarrow> [s])
                             else [])
                 safe_pids)"

definition find_tmux_servers_for_sockets ::
  "(string \<Rightarrow> string option) \<Rightarrow> string list \<Rightarrow> process_map \<Rightarrow> int list" where
  "find_tmux_servers_for_sockets socket_re sockets processes =
     (if sockets = [] then []
      else map fst (filter (\<lambda>(pid, info).
                        p_comm info = ''tmux'' \<and> contains (p_args info) '' -D''
                        \<and> (case socket_re (p_args info) of
                              None \<Rightarrow> False
                            | Some s \<Rightarrow> s \<in> set sockets))
                      processes))"

text \<open>
  \<^verbatim>\<open>curr = my_pid; while curr in processes: safe_pids.add(curr); curr = processes[curr]["ppid"]\<close>.
  On a table whose parent links run in a cycle the loop never ends: the value is \<open>None\<close>.
\<close>

partial_function (option) add_ancestors :: "process_map \<Rightarrow> int \<Rightarrow> int list \<Rightarrow> int list option" where
  "add_ancestors processes cur safe_pids =
     (case map_of processes cur of
        None \<Rightarrow> Some safe_pids
      | Some info \<Rightarrow> add_ancestors processes (p_ppid info) (List.insert cur safe_pids))"

declare add_ancestors.simps [code]

definition zellij_pids :: "process_map \<Rightarrow> int list" where
  "zellij_pids processes = map fst (filter (\<lambda>(pid, info). p_comm info = ''zellij'') processes)"

definition compute_safe_pids :: "world \<Rightarrow> process_map \<Rightarrow> children_map \<Rightarrow> int list option" where
  "compute_safe_pids w processes children =
     (case add_ancestors processes (my_pid w) (get_descendants (zellij_pids processes) children) of
        None \<Rightarrow> None
      | Some safe_pids \<Rightarrow>
          (let safe_sockets = find_safe_tmux_sockets (socket_re_search w) safe_pids processes in
           if safe_sockets \<noteq> []
           then Some (List.union safe_pids
                        (get_descendants
                           (find_tmux_servers_for_sockets (socket_re_search w) safe_sockets processes)
                           children))
           else Some safe_pids))"

section \<open>CandidateClassifier\<close>

datatype kind = agent_bin | agent_node | other

record candidate =
  c_pid :: int
  c_ppid :: int
  c_etimes :: "int option"
  c_args :: string
  c_comm :: string
  c_cwd :: string
  c_safe :: bool
  c_kind :: kind
  c_session :: string
  c_pane_id :: string
  c_pane_instance_id :: string
  c_pane_lease_file :: string
  c_pane_instance_match :: bool
  c_tty :: string
  c_has_tty :: bool

definition PROTECTED_COMMANDS :: "string list" where
  "PROTECTED_COMMANDS =
     [''aoc-session-watch'', ''aoc-cleanup'', ''aoc-init'', ''aoc-launch'', ''aoc-align'',
      ''aoc-doctor'', ''aoc-mem'', ''aoc-tasks'', ''aoc-widget'', ''aoc-clock'', ''aoc-sys'']"

definition AGENT_BINARIES :: "string list" where
  "AGENT_BINARIES =
     [''opencode'', ''open-code'', ''codex'', ''gemini'', ''claude'', ''kimi'', ''pi'',
      ''pi-agent'', ''pi_agent'', ''aoc-agent'', ''aoc-agent-run'', ''aoc-oc'', ''aoc-cc'',
      ''aoc-gemini'', ''aoc-kimi'', ''aoc-pi'']"

definition proc_cmd :: "(string \<Rightarrow> string list option) \<Rightarrow> string \<Rightarrow> string \<Rightarrow> string" where
  "proc_cmd split args comm =
     (if args \<noteq> []
      then (case split args of
              Some (part # _) \<Rightarrow> part
            | _ \<Rightarrow> takeWhile (\<lambda>c. c \<noteq> CHR '' '') args)
      else comm)"

definition is_agent_binary :: "string \<Rightarrow> bool" where
  "is_agent_binary base =
     (base \<in> set AGENT_BINARIES \<or> startswith base ''opencode'' \<or> startswith base ''pi-agent'')"

definition is_agent_process :: "world \<Rightarrow> string \<Rightarrow> string \<Rightarrow> bool" where
  "is_agent_process w args comm =
     (let cmd = proc_cmd (shlex_split w) args comm;
          base = (if cmd \<noteq> [] then basename cmd else [])
      in if is_agent_binary base then True
         else if comm = ''node'' \<and> contains args ''opencode'' then True
         else if agent_name_search w args \<or> agent_name_search w comm then True
         else False)"

definition env_session :: "(string \<rightharpoonup> string) \<Rightarrow> string" where
  "env_session env =
     or_else (env ''AOC_SESSION_ID'')
       (or_else (env ''ZELLIJ_SESSION_NAME'') (or_else (env ''ZELLIJ_SESSION'') []))"

definition env_pane :: "(string \<rightharpoonup> string) \<Rightarrow> string" where
  "env_pane env = or_else (env ''AOC_PANE_ID'') (or_else (env ''ZELLIJ_PANE_ID'') [])"

definition lease_check :: "world \<Rightarrow> string \<Rightarrow> string \<Rightarrow> bool" where
  "lease_check w pane_instance_id pane_lease_file =
     (if pane_instance_id \<noteq> [] \<and> pane_lease_file \<noteq> []
      then (case lease_line w pane_lease_file of
              None \<Rightarrow> False
            | Some line \<Rightarrow> strip line = pane_instance_id)
      else True)"

text \<open>The body of the loop that fills \<^verbatim>\<open>agent_candidates\<close>: one process, one candidate or none.\<close>

definition classify :: "world \<Rightarrow> int list \<Rightarrow> int \<times> proc_info \<Rightarrow> candidate option" where
  "classify w safe_pids entry =
     (case entry of (pid, info) \<Rightarrow>
      let comm = p_comm info; args = p_args info in
      if is_agent_process w args comm then
        if \<exists>p \<in> set PROTECTED_COMMANDS. contains comm p \<or> contains args p then None
        else if \<exists>x \<in> set ['' grep '', '' pgrep '', '' ps '']. contains args x then None
        else
          let cmd = proc_cmd (shlex_split w) args comm;
              base = (if cmd \<noteq> [] then basename cmd else []);
              env = proc_env w pid;
              pane_instance_id = or_else (env ''AOC_PANE_INSTANCE_ID'') [];
              pane_lease_file = or_else (env ''AOC_PANE_LEASE_FILE'') []
          in Some \<lparr>c_pid = pid, c_ppid = p_ppid info, c_etimes = p_etimes info,
                   c_args = args, c_comm = comm, c_cwd = proc_cwd w pid,
                   c_safe = (pid \<in> set safe_pids),
                   c_kind = (if is_agent_binary base then agent_bin
                             else if comm = ''node'' \<and> contains args ''opencode'' then agent_node
                             else other),
                   c_session = env_session env, c_pane_id = env_pane env,
                   c_pane_instance_id = pane_instance_id,
                   c_pane_lease_file = pane_lease_file,
                   c_pane_instance_match = lease_check w pane_instance_id pane_lease_file,
                   c_tty = p_tty info,
                   c_has_tty = (p_tty info \<noteq> [] \<and> p_tty info \<noteq> ''?'')\<rparr>
      else None)"

definition agent_candidates :: "world \<Rightarrow> int list \<Rightarrow> process_map \<Rightarrow> candidate list" where
  "agent_candidates w safe_pids processes = List.map_filter (classify w safe_pids) processes"

section \<open>KeepSelector\<close>

definition root_rank :: "candidate \<Rightarrow> nat \<times> nat \<times> int" where
  "root_rank proc =
     ((if c_has_tty proc then 0 else 1),
      (if c_kind proc = agent_node then 0 else if c_kind proc = agent_bin then 1 else 2),
      - c_pid proc)"

type_synonym pane_groups = "((string \<times> string) \<times> candidate list) list"

text \<open>One step of the loop that fills \<^verbatim>\<open>pane_groups\<close> (a \<^verbatim>\<open>defaultdict(list)\<close>).\<close>

definition add_to_pane_groups :: "string set \<Rightarrow> pane_groups \<Rightarrow> candidate \<Rightarrow> pane_groups" where
  "add_to_pane_groups active_sessions groups proc =
     (if c_pane_id proc = [] then groups
      else if active_sessions \<noteq> {} \<and> c_session proc \<noteq> [] \<and> c_session proc \<notin> active_sessions
      then groups
      else let key = (c_session proc, c_pane_id proc);
               old = (case map_of groups key of None \<Rightarrow> [] | Some procs \<Rightarrow> procs)
           in AList.update key (old @ [proc]) groups)"

record selected_root =
  r_proc :: candidate
  r_has_tty :: bool
  r_has_session :: bool

text \<open>
  One pane group gives one selected root. A group holds at least one process, so
  \<^verbatim>\<open>preferred_pool[0]\<close> exists; the empty case stands for Python's \<^verbatim>\<open>IndexError\<close>
  and is never reached.
\<close>

definition select_root :: "candidate list \<Rightarrow> selected_root option" where
  "select_root procs =
     (let group_has_tty = (\<exists>p \<in> set procs. c_has_tty p);
          group_has_session = (\<exists>p \<in> set procs. c_session p \<noteq> []);
          with_tty = filter c_has_tty procs;
          preferred_pool =
            (if with_tty = []
             then (let group_pids = map c_pid procs;
                       roots = filter (\<lambda>p. c_ppid p \<notin> set group_pids) procs
                   in if roots = [] then procs else roots)
             else with_tty)
      in case sort_key root_rank preferred_pool of
           [] \<Rightarrow> None
         | best # _ \<Rightarrow>
             Some \<lparr>r_proc = best, r_has_tty = group_has_tty, r_has_session = group_has_session\<rparr>)"

definition expected_total :: "(string \<times> nat) list \<Rightarrow> (string \<times> nat) list \<Rightarrow> nat" where
  "expected_total exp_cwds exp_ids =
     (if exp_cwds \<noteq> [] then sum_list (map snd exp_cwds)
      else if exp_ids \<noteq> [] then sum_list (map snd exp_ids)
      else 0)"

definition pane_selection ::
  "(string \<times> nat) list \<Rightarrow> (string \<times> nat) list \<Rightarrow> pane_groups \<Rightarrow> int list" where
  "pane_selection exp_cwds exp_ids groups =
     (let selected_roots = List.map_filter (\<lambda>(key, procs). select_root procs) groups;
          total = expected_total exp_cwds exp_ids;
          selected_roots =
            (if total \<noteq> 0 \<and> length selected_roots > total
             then take total
                    (sort_key (\<lambda>r. (\<not> r_has_tty r, \<not> r_has_session r, root_rank (r_proc r)))
                       selected_roots)
             else selected_roots)
      in remdups (map (\<lambda>entry. c_pid (r_proc entry)) selected_roots))"

definition cwd_matches :: "string \<Rightarrow> string \<Rightarrow> bool" where
  "cwd_matches proc_path active_cwd =
     (if proc_path = [] \<or> active_cwd = [] then False
      else if startswith active_cwd ''/''
      then proc_path = active_cwd \<or> startswith proc_path (active_cwd @ ''/'')
      else proc_path = active_cwd \<or> endswith proc_path (''/'' @ active_cwd))"

definition cmd_matches :: "string \<Rightarrow> string \<Rightarrow> bool" where
  "cmd_matches proc_exec active_cmd =
     (if proc_exec = [] \<or> active_cmd = [] then False
      else if proc_exec = active_cmd then True
      else basename proc_exec = basename active_cmd)"

text \<open>
  \<^verbatim>\<open>procs.sort(key=lambda p: p["pid"], reverse=True)\<close> followed by the choice of
  \<^verbatim>\<open>preferred\<close>: the agent binaries if there are any, else the node agents if there are
  any, else all of them.
\<close>

definition sort_pid_desc :: "candidate list \<Rightarrow> candidate list" where
  "sort_pid_desc procs = sort_key (\<lambda>p. - c_pid p) procs"

definition preferred :: "candidate list \<Rightarrow> candidate list" where
  "preferred procs =
     (let bins = filter (\<lambda>p. c_kind p = agent_bin) procs in
      if bins \<noteq> [] then bins
      else let nodes = filter (\<lambda>p. c_kind p = agent_node) procs in
           if nodes \<noteq> [] then nodes else procs)"

definition counter_get :: "(string \<times> nat) list \<Rightarrow> string \<Rightarrow> nat" where
  "counter_get counter key = (case map_of counter key of None \<Rightarrow> 0 | Some n \<Rightarrow> n)"

text \<open>What the directory-count strategy keeps for one hint of \<^verbatim>\<open>expected_cwds\<close>.\<close>

definition keep_for_cwd :: "(string \<times> nat) list \<Rightarrow> candidate list \<Rightarrow> string \<Rightarrow> candidate list" where
  "keep_for_cwd exp_cwds candidates cwd_hint =
     (let procs = filter (\<lambda>proc. cwd_matches (c_cwd proc) cwd_hint) candidates in
      if procs = [] then []
      else take (counter_get exp_cwds cwd_hint) (preferred (sort_pid_desc procs)))"

definition keep_by_cwd :: "(string \<times> nat) list \<Rightarrow> candidate list \<Rightarrow> int list" where
  "keep_by_cwd exp_cwds candidates =
     remdups (map c_pid (concat (map (keep_for_cwd exp_cwds candidates) (map fst exp_cwds))))"

definition keep_for_id :: "(string \<times> nat) list \<Rightarrow> candidate list \<Rightarrow> string \<Rightarrow> candidate list" where
  "keep_for_id exp_ids candidates agent_id =
     (let procs = filter (\<lambda>proc. c_cwd proc \<noteq> [] \<and> basename (c_cwd proc) \<noteq> []
                                  \<and> basename (c_cwd proc) = agent_id) candidates in
      if procs = [] then []
      else take (counter_get exp_ids agent_id) (preferred (sort_pid_desc procs)))"

definition keep_by_id :: "(string \<times> nat) list \<Rightarrow> candidate list \<Rightarrow> int list" where
  "keep_by_id exp_ids candidates =
     remdups (map c_pid (concat (map (keep_for_id exp_ids candidates) (map fst exp_ids))))"

definition pane_layout_signals :: "world \<Rightarrow> bool" where
  "pane_layout_signals w =
     (expected_cwds w \<noteq> [] \<or> expected_ids w \<noteq> [] \<or> active_panes_by_session w \<noteq> [])"

definition have_active_signals :: "world \<Rightarrow> bool" where
  "have_active_signals w =
     (active_commands w \<noteq> [] \<or> agent_cwds w \<noteq> [] \<or> expected_cwds w \<noteq> [] \<or> expected_ids w \<noteq> [])"

definition strict_mode :: "world \<Rightarrow> bool" where
  "strict_mode w = (pane_strict w \<and> pane_layout_signals w)"

definition active_sessions_of :: "world \<Rightarrow> string set" where
  "active_sessions_of w =
     (case session_filter w of
        None \<Rightarrow> set (all_sessions w)
      | Some flt \<Rightarrow>
          if flt \<noteq> {}
          then (if all_sessions w \<noteq> []
                then (let act = set (filter (\<lambda>s. s \<in> flt) (all_sessions w)) in
                      if act = {} then flt else act)
                else flt)
          else {})"

definition pane_groups_of :: "world \<Rightarrow> candidate list \<Rightarrow> pane_groups" where
  "pane_groups_of w candidates = foldl (add_to_pane_groups (active_sessions_of w)) [] candidates"

text \<open>
  The three strategies in the order of the source: pane-strict selection when strict mode
  has any pane group, else the directory counts when there are any, else the identity counts.
\<close>

definition keep_pids_of :: "world \<Rightarrow> candidate list \<Rightarrow> int list" where
  "keep_pids_of w candidates =
     (let groups = (if strict_mode w then pane_groups_of w candidates else []);
          used_pane_selection = (groups \<noteq> []);
          keep_pids = (if used_pane_selection
                       then pane_selection (expected_cwds w) (expected_ids w) groups else [])
      in if expected_cwds w \<noteq> [] \<and> \<not> used_pane_selection
         then List.union keep_pids (keep_by_cwd (expected_cwds w) candidates)
         else if expected_ids w \<noteq> [] \<and> \<not> used_pane_selection
         then List.union keep_pids (keep_by_id (expected_ids w) candidates)
         else keep_pids)"

definition keep_tree_of :: "int list \<Rightarrow> children_map \<Rightarrow> int list" where
  "keep_tree_of keep_pids children =
     (if keep_pids \<noteq> [] then get_descendants keep_pids children else [])"

section \<open>Kill decision\<close>

definition proc_has_active_session :: "world \<Rightarrow> int \<Rightarrow> string set \<Rightarrow> bool" where
  "proc_has_active_session w pid active_sessions =
     (if active_sessions = {} then False
      else let session = env_session (proc_env w pid) in
           if session = [] then False else session \<in> active_sessions)"

definition proc_matches_active_pane :: "candidate \<Rightarrow> (string \<times> string set) list \<Rightarrow> bool" where
  "proc_matches_active_pane proc panes =
     (let session = strip (c_session proc); pane_id = strip (c_pane_id proc) in
      if session = [] \<or> pane_id = [] then False
      else (case map_of panes session of
              None \<Rightarrow> False
            | Some active \<Rightarrow> if active = {} then False else pane_id \<in> active))"

text \<open>The two halves of rule 8: the command hint, and the directory hint behind its guard.\<close>

definition command_hit :: "world \<Rightarrow> candidate \<Rightarrow> bool" where
  "command_hit w proc =
     (let proc_exec = proc_cmd (shlex_split w) (c_args proc) (c_comm proc) in
      \<exists>cmd \<in> set (active_commands w). cmd_matches proc_exec cmd \<or> contains (c_args proc) cmd)"

definition cwd_hit :: "world \<Rightarrow> candidate \<Rightarrow> bool" where
  "cwd_hit w proc = (\<exists>ac \<in> set (agent_cwds w). cwd_matches (c_cwd proc) ac)"

definition active_hit :: "world \<Rightarrow> candidate \<Rightarrow> bool" where
  "active_hit w proc =
     (if have_active_signals w \<and> \<not> strict_mode w
      then (if command_hit w proc then True
            else if \<not> (c_session proc \<noteq> [] \<and> c_pane_id proc \<noteq> [])
            then cwd_hit w proc
            else False)
      else False)"

text \<open>
  The body of the last loop of \<^verbatim>\<open>run_cleanup\<close>, one value per way out of it: every
  \<^verbatim>\<open>continue\<close> and every \<^verbatim>\<open>kill_list.append\<close>, in the order of the source.
\<close>

datatype verdict =
    RetainSessionFilter
  | KillLeaseMismatch
  | RetainActivePane
  | KillPaneMiss
  | SkipPaneMiss
  | RetainSafe
  | RetainKeepTree
  | RetainActiveSession
  | RetainActiveHit
  | SkipYoung
  | KillOrphan

definition decide :: "world \<Rightarrow> int list \<Rightarrow> int list \<Rightarrow> candidate \<Rightarrow> verdict" where
  "decide w safe_pids keep_tree proc =
     (let pid = c_pid proc;
          proc_session = c_session proc;
          active_sessions = active_sessions_of w
      in
      if session_filter w \<noteq> None \<and> proc_session \<noteq> [] \<and> proc_session \<notin> active_sessions
      then RetainSessionFilter
      else if c_pane_instance_id proc \<noteq> [] \<and> \<not> c_pane_instance_match proc
      then KillLeaseMismatch
      else if proc_matches_active_pane proc (active_panes_by_session w)
      then RetainActivePane
      else if proc_session \<noteq> [] \<and> c_pane_id proc \<noteq> []
              \<and> map_of (active_panes_by_session w) proc_session \<noteq> None
      then (if strict_mode w then KillPaneMiss
            else if min_age_secs w \<le> 0 then SkipPaneMiss
            else (case c_etimes proc of
                    None \<Rightarrow> SkipPaneMiss
                  | Some proc_age \<Rightarrow>
                      if proc_age < min_age_secs w then SkipPaneMiss else KillPaneMiss))
      else if pid \<in> set safe_pids \<and> \<not> strict_mode w
              \<and> (session_filter w = None \<or> proc_has_active_session w pid active_sessions)
      then RetainSafe
      else if pid \<in> set keep_tree
      then RetainKeepTree
      else if proc_has_active_session w pid active_sessions \<and> \<not> strict_mode w
      then RetainActiveSession
      else if active_hit w proc
      then RetainActiveHit
      else if min_age_secs w > 0
              \<and> (case c_etimes proc of None \<Rightarrow> True | Some proc_age \<Rightarrow> proc_age < min_age_secs w)
      then SkipYoung
      else KillOrphan)"

definition is_kill :: "verdict \<Rightarrow> bool" where
  "is_kill v = (v = KillLeaseMismatch \<or> v = KillPaneMiss \<or> v = KillOrphan)"

definition kill_list_of :: "world \<Rightarrow> int list \<Rightarrow> int list \<Rightarrow> candidate list \<Rightarrow> (int \<times> string) list" where
  "kill_list_of w safe_pids keep_tree candidates =
     map (\<lambda>proc. (c_pid proc, c_args proc))
       (filter (\<lambda>proc. is_kill (decide w safe_pids keep_tree proc)) candidates)"

section \<open>Execution and SnapshotPruner\<close>

text \<open>
  One phase of signalling: \<^verbatim>\<open>os.kill(pid, sg)\<close> for each pid of the kill list in order.
  The result lists the calls the pass got through (delivered, or no such process) and
  says whether a call raised past the handler, which ends the pass there.
\<close>

fun signal_phase ::
  "(int \<Rightarrow> signal \<Rightarrow> kill_result) \<Rightarrow> signal \<Rightarrow> int list \<Rightarrow> (int \<times> signal) list \<times> bool" where
  "signal_phase kill sg [] = ([], False)"
| "signal_phase kill sg (pid # pids) =
     (if kill pid sg = OtherOSError then ([], True)
      else (case signal_phase kill sg pids of (sent, raised) \<Rightarrow> ((pid, sg) # sent, raised)))"

text \<open>
  The signals of one pass: none in a dry run, else the \<^verbatim>\<open>SIGTERM\<close> phase and, if it did
  not raise, the \<^verbatim>\<open>SIGKILL\<close> phase.
\<close>

definition send_signals ::
  "bool \<Rightarrow> (int \<Rightarrow> signal \<Rightarrow> kill_result) \<Rightarrow> (int \<times> string) list \<Rightarrow> (int \<times> signal) list \<times> bool" where
  "send_signals dry kill kill_list =
     (if dry then ([], False)
      else (case signal_phase kill SIGTERM (map fst kill_list) of
              (terms, raised) \<Rightarrow>
                if raised then (terms, True)
                else (case signal_phase kill SIGKILL (map fst kill_list) of
                        (kills, raised') \<Rightarrow> (terms @ kills, raised'))))"

definition snapshot_pane_id :: "string \<Rightarrow> string" where
  "snapshot_pane_id file_name = strip (take (length file_name - 5) file_name)"

definition snapshot_is_stale :: "world \<Rightarrow> string \<Rightarrow> snapshot_file \<Rightarrow> bool" where
  "snapshot_is_stale w session_name f =
     (let pane_id = snapshot_pane_id (f_name f);
          allowed_panes = (case map_of (active_panes_by_session w) session_name of
                             None \<Rightarrow> {} | Some panes \<Rightarrow> panes)
      in if \<not> endswith (f_name f) ''.json'' then False
         else if pane_id \<noteq> [] \<and> pane_id \<in> allowed_panes then False
         else (case f_pid f of
                 None \<Rightarrow> True
               | Some pid \<Rightarrow>
                   \<not> (pid > 0 \<and> env_session (proc_env w pid) = session_name
                              \<and> env_pane (proc_env w pid) = pane_id)))"

definition session_is_pruned :: "world \<Rightarrow> session_dir \<Rightarrow> bool" where
  "session_is_pruned w d =
     (if \<not> d_is_dir d then False
      else if session_filter w \<noteq> None \<and> active_sessions_of w \<noteq> {}
              \<and> d_name d \<notin> active_sessions_of w
      then False
      else True)"

text \<open>
  The stale files of one session directory: the count \<^verbatim>\<open>removed\<close> grows by, and the
  paths deleted. A dry run counts every stale file; a real run counts a stale file after
  \<^verbatim>\<open>os.remove\<close> has succeeded.
\<close>

definition prune_session ::
  "world \<Rightarrow> string \<Rightarrow> snapshot_file list \<Rightarrow> nat \<times> (string \<times> string) list" where
  "prune_session w session_name files =
     (let stale = filter (snapshot_is_stale w session_name) files in
      if dry_run w then (length stale, [])
      else (let gone = filter (\<lambda>f. f_remove f = Removed) stale
            in (length gone, map (\<lambda>f. (session_name, f_name f)) gone)))"

text \<open>
  The loop of \<^verbatim>\<open>prune_runtime_snapshots\<close> over the entries of the root: the count, the
  paths deleted, and whether \<^verbatim>\<open>os.listdir\<close> raised on a session directory, which ends
  the pass with the files of the earlier directories already deleted.
\<close>

fun prune_sessions :: "world \<Rightarrow> session_dir list \<Rightarrow> nat \<times> (string \<times> string) list \<times> bool" where
  "prune_sessions w [] = (0, [], False)"
| "prune_sessions w (d # ds) =
     (if \<not> session_is_pruned w d then prune_sessions w ds
      else (case d_files d of
              None \<Rightarrow> (0, [], True)
            | Some files \<Rightarrow>
                (case prune_session w (d_name d) files of
                   (n, gone) \<Rightarrow>
                     (case prune_sessions w ds of
                        (m, deleted, raised) \<Rightarrow> (n + m, gone @ deleted, raised)))))"

definition prune_runtime_snapshots :: "world \<Rightarrow> nat \<times> (string \<times> string) list \<times> bool" where
  "prune_runtime_snapshots w =
     (case telemetry w of
        NotADirectory \<Rightarrow> (0, [], False)
      | RootListdirRaises \<Rightarrow> (0, [], True)
      | RootEntries dirs \<Rightarrow> prune_sessions w dirs)"

text \<open>The stale snapshot files of the session directories that can be listed.\<close>

definition stale_files :: "world \<Rightarrow> (string \<times> snapshot_file) list" where
  "stale_files w =
     (case telemetry w of
        RootEntries dirs \<Rightarrow>
          concat (map (\<lambda>d. if session_is_pruned w d
                            then (case d_files d of
                                    None \<Rightarrow> []
                                  | Some files \<Rightarrow>
                                      map (\<lambda>f. (d_name d, f))
                                        (filter (snapshot_is_stale w (d_name d)) files))
                            else [])
                    dirs)
      | _ \<Rightarrow> [])"

section \<open>One pass\<close>

text \<open>
  What a pass computed and did. \<open>r_verdicts\<close> records, for each candidate in order, the
  way it left the decision loop; \<open>r_signals\<close> the calls of \<^verbatim>\<open>os.kill\<close> the pass got
  through; \<open>r_removed_snapshots\<close> the count the pruner returned (0 when it did not return).
\<close>

record report =
  r_processes :: process_map
  r_safe_pids :: "int list"
  r_candidates :: "candidate list"
  r_keep_pids :: "int list"
  r_keep_tree :: "int list"
  r_verdicts :: "verdict list"
  r_kill_list :: "(int \<times> string) list"
  r_skipped_young :: nat
  r_skipped_pane_miss :: nat
  r_signals :: "(int \<times> signal) list"
  r_removed_snapshots :: nat
  r_deleted_snapshots :: "(string \<times> string) list"

text \<open>
  The ways a pass ends: skipped by one of the two early returns; \<open>Aborted\<close> by an
  exception of the process listing, before anything is computed; \<open>Interrupted\<close> by an
  exception of \<^verbatim>\<open>os.kill\<close> or \<^verbatim>\<open>os.listdir\<close>, with the report of what was done until
  then; or completed.
\<close>

datatype failure = KillRaised | ListdirRaised

datatype outcome =
    SkippedNoSessions
  | SkippedNoActiveSignals
  | Aborted
  | Interrupted failure report
  | Completed report

text \<open>
  \<^verbatim>\<open>run_cleanup\<close> to the end of its decision loop: the pass has ended (\<open>Inl\<close>), or it
  has made its decisions and executed nothing yet (\<open>Inr\<close>); \<open>None\<close> when the ancestry walk
  never ends.
\<close>

definition decide_pass :: "world \<Rightarrow> (outcome + report) option" where
  "decide_pass w =
     (case get_process_map (py_int w) (ps_call w) of
        None \<Rightarrow> Some (Inl Aborted)
      | Some (processes, children) \<Rightarrow>
          if skip_if_no_sessions w \<and> all_sessions w = [] then Some (Inl SkippedNoSessions)
          else (case compute_safe_pids w processes children of
                  None \<Rightarrow> None
                | Some safe_pids \<Rightarrow>
                    if require_active_signals w \<and> \<not> have_active_signals w
                    then Some (Inl SkippedNoActiveSignals)
                    else
                      (let candidates = agent_candidates w safe_pids processes;
                           keep_pids = keep_pids_of w candidates;
                           keep_tree = keep_tree_of keep_pids children;
                           verdicts = map (decide w safe_pids keep_tree) candidates
                       in Some (Inr
                            \<lparr>r_processes = processes,
                             r_safe_pids = safe_pids,
                             r_candidates = candidates,
                             r_keep_pids = keep_pids,
                             r_keep_tree = keep_tree,
                             r_verdicts = verdicts,
                             r_kill_list = kill_list_of w safe_pids keep_tree candidates,
                             r_skipped_young = length (filter (\<lambda>v. v = SkipYoung) verdicts),
                             r_skipped_pane_miss =
                               length (filter (\<lambda>v. v = SkipPaneMiss) verdicts),
                             r_signals = [],
                             r_removed_snapshots = 0,
                             r_deleted_snapshots = []\<rparr>))))"

text \<open>The rest of \<^verbatim>\<open>run_cleanup\<close>: the two signal phases, then the pruner.\<close>

definition execute_pass :: "world \<Rightarrow> report \<Rightarrow> outcome" where
  "execute_pass w r =
     (case send_signals (dry_run w) (os_kill w) (r_kill_list r) of
        (signals, raised) \<Rightarrow>
          if raised then Interrupted KillRaised (r\<lparr>r_signals := signals\<rparr>)
          else (case prune_runtime_snapshots w of
                  (removed, deleted, raised') \<Rightarrow>
                    if raised'
                    then Interrupted ListdirRaised
                           (r\<lparr>r_signals := signals, r_deleted_snapshots := deleted\<rparr>)
                    else Completed
                           (r\<lparr>r_signals := signals, r_removed_snapshots := removed,
                              r_deleted_snapshots := deleted\<rparr>)))"

definition run_cleanup :: "world \<Rightarrow> outcome option" where
  "run_cleanup w =
     (case decide_pass w of
        None \<Rightarrow> None
      | Some (Inl out) \<Rightarrow> Some out
      | Some (Inr r) \<Rightarrow> Some (execute_pass w r))"

text \<open>
  The table a pass works on (empty when the listing raises and the pass is aborted), and
  the safe-pid set computed from it.
\<close>

definition processes_of :: "world \<Rightarrow> process_map" where
  "processes_of w =
     (case get_process_map (py_int w) (ps_call w) of None \<Rightarrow> [] | Some tables \<Rightarrow> fst tables)"

definition children_of :: "world \<Rightarrow> children_map" where
  "children_of w =
     (case get_process_map (py_int w) (ps_call w) of None \<Rightarrow> [] | Some tables \<Rightarrow> snd tables)"

definition safe_pids_of :: "world \<Rightarrow> int list option" where
  "safe_pids_of w = compute_safe_pids w (processes_of w) (children_of w)"

section \<open>Notions the properties are stated with\<close>

text \<open>
  The ancestry walk from \<open>cur\<close> ends: following parent links from \<open>cur\<close> leaves the table.
\<close>

inductive ancestry_ends :: "process_map \<Rightarrow> int \<Rightarrow> bool" for processes where
  leaves: "map_of processes cur = None \<Longrightarrow> ancestry_ends processes cur"
| climbs: "map_of processes cur = Some info \<Longrightarrow> ancestry_ends processes (p_ppid info)
             \<Longrightarrow> ancestry_ends processes cur"

text \<open>
  \<open>visible_ancestor processes start a\<close>: \<open>a\<close> is \<open>start\<close> itself or one of its ancestors, reached
  from \<open>start\<close> through parent links whose every pid is a key of the table.
\<close>

inductive visible_ancestor :: "process_map \<Rightarrow> int \<Rightarrow> int \<Rightarrow> bool" for processes start where
  self: "map_of processes start = Some info \<Longrightarrow> visible_ancestor processes start start"
| parent: "visible_ancestor processes start cur \<Longrightarrow> map_of processes cur = Some info
             \<Longrightarrow> map_of processes (p_ppid info) = Some info'
             \<Longrightarrow> visible_ancestor processes start (p_ppid info)"

text \<open>The parent-to-child relation of a children map.\<close>

definition child_rel :: "children_map \<Rightarrow> (int \<times> int) set" where
  "child_rel children = {(p, c). c \<in> set (children_get children p)}"

definition lease_mismatch :: "candidate \<Rightarrow> bool" where
  "lease_mismatch proc = (c_pane_instance_id proc \<noteq> [] \<and> \<not> c_pane_instance_match proc)"

definition session_excluded :: "world \<Rightarrow> candidate \<Rightarrow> bool" where
  "session_excluded w proc =
     (session_filter w \<noteq> None \<and> c_session proc \<noteq> [] \<and> c_session proc \<notin> active_sessions_of w)"

definition pane_miss :: "world \<Rightarrow> candidate \<Rightarrow> bool" where
  "pane_miss w proc =
     (c_session proc \<noteq> [] \<and> c_pane_id proc \<noteq> []
      \<and> map_of (active_panes_by_session w) (c_session proc) \<noteq> None)"

text \<open>
  Readings of a pass. \<open>reached\<close> is the report of a pass that got to its kill list,
  whether it then ran to the end or was interrupted. A pass that is skipped or aborted,
  or that never returns, has no report: it has no candidates and no kill list, and it
  signals and deletes nothing. \<open>removed_in\<close> is the pruned-snapshot count a pass reports;
  only a completed pass reports one.
\<close>

definition reached :: "world \<Rightarrow> report option" where
  "reached w =
     (case run_cleanup w of
        Some (Completed r) \<Rightarrow> Some r
      | Some (Interrupted f r) \<Rightarrow> Some r
      | _ \<Rightarrow> None)"

definition candidates_in :: "world \<Rightarrow> candidate list" where
  "candidates_in w = (case reached w of Some r \<Rightarrow> r_candidates r | None \<Rightarrow> [])"

definition verdicts_in :: "world \<Rightarrow> (candidate \<times> verdict) list" where
  "verdicts_in w =
     (case reached w of Some r \<Rightarrow> zip (r_candidates r) (r_verdicts r) | None \<Rightarrow> [])"

definition kill_list_in :: "world \<Rightarrow> (int \<times> string) list" where
  "kill_list_in w = (case reached w of Some r \<Rightarrow> r_kill_list r | None \<Rightarrow> [])"

definition kill_pids :: "world \<Rightarrow> int list" where
  "kill_pids w = map fst (kill_list_in w)"

definition safe_pids_in :: "world \<Rightarrow> int list" where
  "safe_pids_in w = (case reached w of Some r \<Rightarrow> r_safe_pids r | None \<Rightarrow> [])"

definition keep_pids_in :: "world \<Rightarrow> int list" where
  "keep_pids_in w = (case reached w of Some r \<Rightarrow> r_keep_pids r | None \<Rightarrow> [])"

definition keep_tree_in :: "world \<Rightarrow> int list" where
  "keep_tree_in w = (case reached w of Some r \<Rightarrow> r_keep_tree r | None \<Rightarrow> [])"

definition signals_in :: "world \<Rightarrow> (int \<times> signal) list" where
  "signals_in w = (case reached w of Some r \<Rightarrow> r_signals r | None \<Rightarrow> [])"

definition deleted_in :: "world \<Rightarrow> (string \<times> string) list" where
  "deleted_in w = (case reached w of Some r \<Rightarrow> r_deleted_snapshots r | None \<Rightarrow> [])"

definition removed_in :: "world \<Rightarrow> nat option" where
  "removed_in w =
     (case run_cleanup w of Some (Completed r) \<Rightarrow> Some (r_removed_snapshots r) | _ \<Rightarrow> None)"

section \<open>Concrete instances of the library parameters\<close>

text \<open>
  \<open>agent_pattern_search\<close>: \<^verbatim>\<open>AGENT_NAME_PATTERN.search\<close> with no extra pattern
  configured, on ASCII text: one of the alternatives of \<^verbatim>\<open>AGENT_PATTERN\<close> occurs,
  ignoring case.
\<close>

definition ascii_lower :: "char \<Rightarrow> char" where
  "ascii_lower c =
     (case map_of (zip ''ABCDEFGHIJKLMNOPQRSTUVWXYZ'' ''abcdefghijklmnopqrstuvwxyz'') c of
        None \<Rightarrow> c | Some l \<Rightarrow> l)"

definition AGENT_PATTERN :: "string list" where
  "AGENT_PATTERN =
     [''opencode'', ''open-code'', ''codex'', ''gemini'', ''claude'', ''kimi'', ''pi-agent'',
      ''pi_agent'', ''aoc-pi'']"

definition agent_pattern_search :: "string \<Rightarrow> bool" where
  "agent_pattern_search s = (\<exists>p \<in> set AGENT_PATTERN. contains (map ascii_lower s) p)"

text \<open>
  \<open>shlex_plain\<close>: \<^verbatim>\<open>shlex.split\<close> on text without quotes and backslashes, where it
  splits at runs of blanks, tabs, carriage returns and newlines.
\<close>

fun split_words :: "string \<Rightarrow> string \<Rightarrow> string list" where
  "split_words word [] = (if word = [] then [] else [word])"
| "split_words word (c # cs) =
     (if c \<in> set [CHR 0x20, CHR 0x09, CHR 0x0D, CHR 0x0A]
      then (if word = [] then split_words [] cs else word # split_words [] cs)
      else split_words (word @ [c]) cs)"

definition shlex_plain :: "string \<Rightarrow> string list option" where
  "shlex_plain s = Some (split_words [] s)"

text \<open>
  A world with nothing in it: an empty process listing, no sessions, no layout evidence,
  no telemetry. The example worlds below change some of its fields. None of them has a
  tmux process, so the socket pattern is never matched against anything.
\<close>

definition quiet_world :: world where
  "quiet_world =
     \<lparr>ps_call = PsRows [], os_kill = (\<lambda>pid sg. Delivered), my_pid = 4242, proc_env = (\<lambda>pid. Map.empty), proc_cwd = (\<lambda>pid. []),
      lease_line = Map.empty, session_filter = None, all_sessions = [], pane_strict = False,
      dry_run = False, require_active_signals = False, skip_if_no_sessions = False,
      min_age_secs = 0, active_commands = [], agent_cwds = [], expected_cwds = [],
      expected_ids = [], active_panes_by_session = [], telemetry = NotADirectory,
      py_int = int_literal, shlex_split = shlex_plain,
      agent_name_search = agent_pattern_search, socket_re_search = (\<lambda>args. None)\<rparr>"

text \<open>One orphan: an agent binary with no parent in the table, no terminal, no session.\<close>

definition orphan_world :: world where
  "orphan_world =
     quiet_world\<lparr>ps_call := PsRows [[''300'', ''1'', ''50'', ''?'', ''claude'', ''claude --resume'']]\<rparr>"

text \<open>
  A session manager (pid 100) with one agent (pid 200) in pane 3 of session main. The
  agent sits in the directory the layout expects one agent in. Its lease file names
  another instance as the owner of the pane.
\<close>

definition pane_world :: world where
  "pane_world =
     quiet_world
       \<lparr>ps_call := PsRows [[''100'', ''1'', ''900'', ''?'', ''zellij'', ''zellij --server''],
                         [''200'', ''100'', ''600'', ''pts/1'', ''claude'', ''claude'']],
        proc_env := (\<lambda>pid. if pid = 200
                            then [''AOC_SESSION_ID'' \<mapsto> ''main'', ''AOC_PANE_ID'' \<mapsto> ''3'']
                            else Map.empty),
        proc_cwd := (\<lambda>pid. if pid = 200 then ''/home/u/proj'' else []),
        all_sessions := [''main''],
        expected_cwds := [(''/home/u/proj'', 1)],
        active_panes_by_session := [(''main'', {''3''})]\<rparr>"

definition lease_world :: world where
  "lease_world =
     pane_world
       \<lparr>proc_env := (\<lambda>pid. if pid = 200
                            then [''AOC_SESSION_ID'' \<mapsto> ''main'', ''AOC_PANE_ID'' \<mapsto> ''3'',
                                  ''AOC_PANE_INSTANCE_ID'' \<mapsto> ''inst-a'',
                                  ''AOC_PANE_LEASE_FILE'' \<mapsto> ''/run/aoc/lease-3'']
                            else Map.empty),
        lease_line := [''/run/aoc/lease-3'' \<mapsto> ''inst-b'']\<rparr>"

text \<open>The same, with the cleanup restricted to a session the agent does not belong to.\<close>

definition filtered_world :: world where
  "filtered_world = lease_world\<lparr>session_filter := Some {''other''}\<rparr>"

definition pane_candidate :: candidate where
  "pane_candidate =
     \<lparr>c_pid = 200, c_ppid = 100, c_etimes = Some 600, c_args = ''claude'', c_comm = ''claude'',
      c_cwd = ''/home/u/proj'', c_safe = True, c_kind = agent_bin, c_session = ''main'',
      c_pane_id = ''3'', c_pane_instance_id = [], c_pane_lease_file = [],
      c_pane_instance_match = True, c_tty = ''pts/1'', c_has_tty = True\<rparr>"

definition lease_candidate :: candidate where
  "lease_candidate =
     pane_candidate\<lparr>c_pane_instance_id := ''inst-a'', c_pane_lease_file := ''/run/aoc/lease-3'',
                    c_pane_instance_match := False\<rparr>"

text \<open>
  Pane-strict mode with pane evidence, and under the session manager an agent that has
  no session and no pane id in its environment.
\<close>

definition strict_world :: world where
  "strict_world =
     quiet_world
       \<lparr>ps_call := PsRows [[''100'', ''1'', ''900'', ''?'', ''zellij'', ''zellij --server''],
                         [''200'', ''100'', ''600'', ''pts/1'', ''claude'', ''claude'']],
        all_sessions := [''main''],
        pane_strict := True,
        active_panes_by_session := [(''main'', {''3''})]\<rparr>"

text \<open>
  An agent whose environment names pane 7 of a session that no longer exists, while the
  layout of the live session shows a pane running the same command.
\<close>

definition hint_world :: world where
  "hint_world =
     quiet_world
       \<lparr>ps_call := PsRows [[''300'', ''1'', ''50'', ''?'', ''claude'', ''claude'']],
        proc_env := (\<lambda>pid. if pid = 300
                            then [''AOC_SESSION_ID'' \<mapsto> ''gone'', ''AOC_PANE_ID'' \<mapsto> ''7'']
                            else Map.empty),
        all_sessions := [''main''],
        active_commands := [''claude''],
        active_panes_by_session := [(''main'', {''3''})]\<rparr>"

definition hint_candidate :: candidate where
  "hint_candidate =
     \<lparr>c_pid = 300, c_ppid = 1, c_etimes = Some 50, c_args = ''claude'', c_comm = ''claude'',
      c_cwd = [], c_safe = False, c_kind = agent_bin, c_session = ''gone'',
      c_pane_id = ''7'', c_pane_instance_id = [], c_pane_lease_file = [],
      c_pane_instance_match = True, c_tty = ''?'', c_has_tty = False\<rparr>"

text \<open>The process listing fails; sessions and layout evidence are as in \<open>pane_world\<close>.\<close>

definition failed_world :: world where
  "failed_world = pane_world\<lparr>ps_call := PsCalledProcessError\<rparr>"

text \<open>
  The tool (pid 4242) and the shell that started it (pid 4000) are in the listing; the
  parent of the shell (pid 1) is not.
\<close>

definition tool_world :: world where
  "tool_world =
     quiet_world
       \<lparr>ps_call := PsRows [[''4000'', ''1'', ''7200'', ''pts/0'', ''bash'', ''-bash''],
                         [''4242'', ''4000'', ''0'', ''pts/0'', ''python3'', ''python3 core.py'']]\<rparr>"

text \<open>A listing whose only row names itself as its parent, with the tool at that pid.\<close>

definition cycle_world :: world where
  "cycle_world =
     quiet_world
       \<lparr>ps_call := PsRows [[''7'', ''7'', ''10'', ''?'', ''init'', ''init'']], my_pid := 7\<rparr>"

text \<open>
  \<open>lease_world\<close> with a telemetry file for pane 9 of session main. Pane 9 is not live and
  the pid the file names (555) is not running, so the file is stale. In \<open>prune_world\<close> the
  file can be removed; in \<open>locked_world\<close> removing it fails.
\<close>

definition prune_world :: world where
  "prune_world =
     lease_world
       \<lparr>telemetry := RootEntries [\<lparr>d_name = ''main'', d_is_dir = True,
                             d_files = Some [\<lparr>f_name = ''9.json'', f_pid = Some 555,
                                         f_remove = Removed\<rparr>]\<rparr>]\<rparr>"

definition locked_world :: world where
  "locked_world =
     lease_world
       \<lparr>telemetry := RootEntries [\<lparr>d_name = ''main'', d_is_dir = True,
                             d_files = Some [\<lparr>f_name = ''9.json'', f_pid = Some 555,
                                         f_remove = RemoveFailed\<rparr>]\<rparr>]\<rparr>"

text \<open>The order of preference between kinds: agent binaries, then node agents, then the rest.\<close>

definition kind_preference :: "kind \<Rightarrow> nat" where
  "kind_preference k = (case k of agent_bin \<Rightarrow> 0 | agent_node \<Rightarrow> 1 | other \<Rightarrow> 2)"

text \<open>
  The directory-count strategy runs: there are expected directories and the pane-strict
  selection was not used.
\<close>

definition directory_strategy_runs :: "world \<Rightarrow> candidate list \<Rightarrow> bool" where
  "directory_strategy_runs w candidates =
     (expected_cwds w \<noteq> [] \<and> \<not> (strict_mode w \<and> pane_groups_of w candidates \<noteq> []))"

text \<open>
  One agent expected in one directory that holds two agent binaries (pids 50 and 55) and
  a helper script that only mentions an agent (pid 60).
\<close>

definition choice_world :: world where
  "choice_world =
     quiet_world
       \<lparr>ps_call := PsRows [[''50'', ''1'', ''100'', ''?'', ''claude'', ''claude''],
                         [''55'', ''1'', ''90'', ''?'', ''codex'', ''codex''],
                         [''60'', ''1'', ''80'', ''?'', ''python3'', ''python3 claude_helper.py'']],
        proc_cwd := (\<lambda>pid. ''/home/u/proj/a''),
        expected_cwds := [(''/home/u/proj/a'', 1)]\<rparr>"

definition choice_candidate :: "int \<Rightarrow> int \<Rightarrow> string \<Rightarrow> string \<Rightarrow> kind \<Rightarrow> candidate" where
  "choice_candidate pid age comm args knd =
     \<lparr>c_pid = pid, c_ppid = 1, c_etimes = Some age, c_args = args, c_comm = comm,
      c_cwd = ''/home/u/proj/a'', c_safe = False, c_kind = knd, c_session = [],
      c_pane_id = [], c_pane_instance_id = [], c_pane_lease_file = [],
      c_pane_instance_match = True, c_tty = ''?'', c_has_tty = False\<rparr>"

text \<open>
  Two tabs, one rooted in a project and one in a directory below it, each expecting one
  agent; an agent binary (pid 300) in the project and a helper script (pid 310) below.
\<close>

definition overlap_world :: world where
  "overlap_world =
     quiet_world
       \<lparr>ps_call := PsRows [[''300'', ''1'', ''100'', ''?'', ''claude'', ''claude''],
                         [''310'', ''1'', ''80'', ''?'', ''python3'', ''python3 claude_helper.py'']],
        proc_cwd := (\<lambda>pid. if pid = 300 then ''/home/u/proj'' else ''/home/u/proj/sub''),
        expected_cwds := [(''/home/u/proj'', 1), (''/home/u/proj/sub'', 1)]\<rparr>"

definition overlap_candidate :: "int \<Rightarrow> int \<Rightarrow> string \<Rightarrow> string \<Rightarrow> string \<Rightarrow> kind \<Rightarrow> candidate" where
  "overlap_candidate pid age comm args cwd knd =
     \<lparr>c_pid = pid, c_ppid = 1, c_etimes = Some age, c_args = args, c_comm = comm,
      c_cwd = cwd, c_safe = False, c_kind = knd, c_session = [],
      c_pane_id = [], c_pane_instance_id = [], c_pane_lease_file = [],
      c_pane_instance_match = True, c_tty = ''?'', c_has_tty = False\<rparr>"

text \<open>
  \<open>pane_world\<close> with one more process: an agent binary (pid 300) that has no parent in
  the table, no session and no working directory the layout knows.
\<close>

definition mixed_world :: world where
  "mixed_world =
     pane_world
       \<lparr>ps_call := PsRows [[''100'', ''1'', ''900'', ''?'', ''zellij'', ''zellij --server''],
                           [''200'', ''100'', ''600'', ''pts/1'', ''claude'', ''claude''],
                           [''300'', ''1'', ''50'', ''?'', ''codex'', ''codex'']]\<rparr>"

text \<open>
  \<open>pane_world\<close> with the agent recording pane 4, which is not live, and a minimum age of
  60 seconds, which the agent (600 seconds old) has passed.
\<close>

definition miss_world :: world where
  "miss_world =
     pane_world
       \<lparr>proc_env := (\<lambda>pid. if pid = 200
                            then [''AOC_SESSION_ID'' \<mapsto> ''main'', ''AOC_PANE_ID'' \<mapsto> ''4'']
                            else Map.empty),
        min_age_secs := 60\<rparr>"

text \<open>
  The cleanup restricted to session main, and under the session manager an agent that
  has no session in its environment.
\<close>

definition filter_world :: world where
  "filter_world =
     quiet_world
       \<lparr>ps_call := PsRows [[''100'', ''1'', ''900'', ''?'', ''zellij'', ''zellij --server''],
                           [''200'', ''100'', ''600'', ''pts/1'', ''claude'', ''claude'']],
        session_filter := Some {''main''},
        all_sessions := [''main'']\<rparr>"

text \<open>\<open>pane_world\<close> on a machine where \<^verbatim>\<open>ps\<close> cannot be run.\<close>

definition missing_ps_world :: world where
  "missing_ps_world = pane_world\<lparr>ps_call := PsRaises\<rparr>"

text \<open>\<open>prune_world\<close> with the agent owned by another user: signalling it is refused.\<close>

definition refused_world :: world where
  "refused_world = prune_world\<lparr>os_kill := (\<lambda>pid sg. OtherOSError)\<rparr>"

section \<open>Termination of the descendant search\<close>

lemma visit_children_set:
  "visit_children safe stack cs = (safe', stack') \<Longrightarrow> set safe' = set safe \<union> set cs"
  by (induction cs arbitrary: safe stack) (auto split: if_splits)

lemma visit_children_old:
  "set cs \<subseteq> set safe \<Longrightarrow> visit_children safe stack cs = (safe, stack)"
  by (induction cs arbitrary: safe stack) auto

lemma children_get_universe: "set (children_get children k) \<subseteq> child_universe children"
proof (cases "map_of children k")
  case None
  then show ?thesis by (simp add: children_get_def)
next
  case (Some cs)
  then have "(k, cs) \<in> set children" by (rule map_of_SomeD)
  then show ?thesis using Some by (force simp: children_get_def child_universe_def)
qed

termination descend
proof (relation "(\<lambda>(ch, safe, stack). card (child_universe ch - set safe))
                   <*mlex*> measure (\<lambda>(ch, safe, stack). length stack)")
  show "wf ((\<lambda>(ch, safe, stack). card (child_universe ch - set safe))
              <*mlex*> measure (\<lambda>(ch, safe, stack). length stack))"
    by (simp add: wf_mlex)
next
  fix children :: children_map and safe cur stack safe' stack'
  assume v: "(safe', stack') = visit_children safe stack (children_get children cur)"
  let ?cs = "children_get children cur"
  let ?U = "child_universe children"
  have eq: "visit_children safe stack ?cs = (safe', stack')" using v by simp
  have fin: "finite ?U" by (simp add: child_universe_def)
  show "((children, safe', stack'), (children, safe, cur # stack))
          \<in> (\<lambda>(ch, safe, stack). card (child_universe ch - set safe))
              <*mlex*> measure (\<lambda>(ch, safe, stack). length stack)"
  proof (cases "set ?cs \<subseteq> set safe")
    case True
    with eq have "safe' = safe" "stack' = stack" by (simp_all add: visit_children_old)
    then show ?thesis by (simp add: mlex_leq)
  next
    case False
    then obtain c where c: "c \<in> set ?cs" "c \<notin> set safe" by auto
    have s: "set safe' = set safe \<union> set ?cs" using eq by (rule visit_children_set)
    have cU: "c \<in> ?U" using c children_get_universe by blast
    have "?U - set safe' \<subset> ?U - set safe" using s c cU by auto
    then have "card (?U - set safe') < card (?U - set safe)"
      using fin by (simp add: psubset_card_mono)
    then show ?thesis by (simp add: mlex_less)
  qed
qed


section \<open>The descendant search computes the descendant closure\<close>

text \<open>
  The result of \<open>get_descendants\<close>, read as a set, is the set of pids reachable from the
  roots through parent-to-child links; it depends on the set of roots only, not on the
  order in which the roots are enumerated.
\<close>

lemma visit_children_stack:
  "visit_children safe stack cs = (safe', stack')
     \<Longrightarrow> set stack' = set stack \<union> (set cs - set safe)"
proof (induction cs arbitrary: safe stack)
  case Nil
  then show ?case by simp
next
  case (Cons child cs)
  show ?case
  proof (cases "child \<in> set safe")
    case True
    with Cons.prems have "visit_children safe stack cs = (safe', stack')" by simp
    from Cons.IH [OF this] True show ?thesis by auto
  next
    case False
    with Cons.prems have "visit_children (safe @ [child]) (child # stack) cs = (safe', stack')"
      by simp
    from Cons.IH [OF this] False show ?thesis by auto
  qed
qed

lemma descend_reach:
  "set stack \<subseteq> set safe
     \<Longrightarrow> (\<forall>p \<in> set safe - set stack. set (children_get children p) \<subseteq> set safe)
     \<Longrightarrow> set (descend children safe stack) = (child_rel children)\<^sup>* `` set safe"
proof (induction children safe stack rule: descend.induct)
  case (1 children safe)
  then have "child_rel children `` set safe \<subseteq> set safe"
    by (auto simp: child_rel_def)
  then show ?case by (simp add: Image_closed_trancl)
next
  case (2 children safe cur stack)
  let ?cs = "children_get children cur"
  let ?R = "child_rel children"
  obtain safe' stack' where v: "visit_children safe stack ?cs = (safe', stack')"
    by (cases "visit_children safe stack ?cs")
  have s: "set safe' = set safe \<union> set ?cs" using v by (rule visit_children_set)
  have t: "set stack' = set stack \<union> (set ?cs - set safe)" using v by (rule visit_children_stack)
  have cur: "cur \<in> set safe" using 2(2) by simp
  have a: "set stack' \<subseteq> set safe'" using s t 2(2) by auto
  have b: "\<forall>p \<in> set safe' - set stack'. set (children_get children p) \<subseteq> set safe'"
  proof
    fix p assume p: "p \<in> set safe' - set stack'"
    then have ps: "p \<in> set safe" "p \<notin> set stack" using s t by auto
    show "set (children_get children p) \<subseteq> set safe'"
    proof (cases "p = cur")
      case True
      then show ?thesis using s by simp
    next
      case False
      with ps 2(3) have "set (children_get children p) \<subseteq> set safe" by simp
      then show ?thesis using s by blast
    qed
  qed
  have "set ?cs \<subseteq> ?R `` set safe" using cur by (auto simp: child_rel_def)
  then have "set ?cs \<subseteq> ?R\<^sup>* `` set safe" by blast
  then have "?R\<^sup>* `` set ?cs \<subseteq> ?R\<^sup>* `` set safe"
    by (auto intro: rtrancl_trans)
  then have r: "?R\<^sup>* `` set safe' = ?R\<^sup>* `` set safe" unfolding s by blast
  have "set (descend children safe (cur # stack)) = set (descend children safe' stack')"
    using v by simp
  also have "\<dots> = ?R\<^sup>* `` set safe'" using 2(1) [OF v [symmetric] a b] .
  finally show ?case using r by simp
qed

lemma get_descendants_reach:
  "set (get_descendants roots children) = (child_rel children)\<^sup>* `` set roots"
  by (simp add: get_descendants_def descend_reach)

lemma get_descendants_order:
  "set roots = set roots' \<Longrightarrow> set (get_descendants roots children) = set (get_descendants roots' children)"
  by (simp add: get_descendants_reach)

section \<open>Basic facts about one pass\<close>

lemma add_row_distinct:
  "distinct (map fst (fst acc)) \<Longrightarrow> distinct (map fst (fst (add_row to_int acc parts)))"
  by (cases acc) (simp add: add_row_def distinct_update split: option.splits)

lemma foldl_add_row_distinct:
  "distinct (map fst (fst acc)) \<Longrightarrow> distinct (map fst (fst (foldl (add_row to_int) acc rows)))"
  by (induction rows arbitrary: acc) (simp_all add: add_row_distinct)

lemma distinct_processes: "distinct (map fst (processes_of w))"
  by (simp add: processes_of_def get_process_map_def foldl_add_row_distinct split: ps_result.splits)

lemma classify_pid: "classify w safe_pids e = Some c \<Longrightarrow> c_pid c = fst e \<and> c_args c = p_args (snd e)"
  by (cases e) (auto simp: classify_def Let_def split: if_splits)

lemma map_filter_pids:
  "map c_pid (List.map_filter (classify w safe_pids) ps)
     = map fst (filter (\<lambda>e. classify w safe_pids e \<noteq> None) ps)"
proof (induction ps)
  case Nil
  show ?case by (simp add: List.map_filter_simps)
next
  case (Cons e ps)
  show ?case
  proof (cases "classify w safe_pids e")
    case None
    with Cons show ?thesis by (simp add: List.map_filter_simps)
  next
    case (Some c)
    with Cons classify_pid [OF Some] show ?thesis by (simp add: List.map_filter_simps)
  qed
qed

lemma candidates_distinct:
  "distinct (map fst ps) \<Longrightarrow> distinct (map c_pid (agent_candidates w safe_pids ps))"
  by (simp add: agent_candidates_def map_filter_pids distinct_map_filter)

lemma candidates_subset:
  "set (map c_pid (agent_candidates w safe_pids ps)) \<subseteq> fst ` set ps"
  by (auto simp: agent_candidates_def map_filter_pids)

lemma kill_list_pids:
  "map fst (kill_list_of w safe_pids keep_tree cands)
     = map c_pid (filter (\<lambda>proc. is_kill (decide w safe_pids keep_tree proc)) cands)"
  by (simp add: kill_list_of_def comp_def)

lemma decide_pass_report:
  assumes "decide_pass w = Some (Inr r)"
  shows "\<exists>safe_pids. safe_pids_of w = Some safe_pids
           \<and> ps_call w \<noteq> PsRaises
           \<and> r_processes r = processes_of w
           \<and> r_safe_pids r = safe_pids
           \<and> r_candidates r = agent_candidates w safe_pids (processes_of w)
           \<and> r_keep_pids r = keep_pids_of w (r_candidates r)
           \<and> r_keep_tree r = keep_tree_of (r_keep_pids r) (children_of w)
           \<and> r_verdicts r = map (decide w safe_pids (r_keep_tree r)) (r_candidates r)
           \<and> r_kill_list r = kill_list_of w safe_pids (r_keep_tree r) (r_candidates r)
           \<and> r_signals r = [] \<and> r_removed_snapshots r = 0 \<and> r_deleted_snapshots r = []"
proof (cases "get_process_map (py_int w) (ps_call w)")
  case None
  with assms show ?thesis by (simp add: decide_pass_def)
next
  case (Some tables)
  obtain processes children where t: "tables = (processes, children)" by (cases tables)
  have p: "processes_of w = processes" "children_of w = children" "ps_call w \<noteq> PsRaises"
    using Some t by (auto simp: processes_of_def children_of_def get_process_map_def)
  show ?thesis
  proof (cases "compute_safe_pids w processes children")
    case None
    with assms Some t show ?thesis by (simp add: decide_pass_def split: if_splits)
  next
    case (Some safe_pids)
    with assms \<open>get_process_map (py_int w) (ps_call w) = Some tables\<close> t p show ?thesis
      by (auto simp: decide_pass_def safe_pids_of_def Let_def split: if_splits)
  qed
qed

lemma execute_pass_report:
  assumes "execute_pass w r0 = Completed r \<or> execute_pass w r0 = Interrupted f r"
  shows "r_processes r = r_processes r0 \<and> r_safe_pids r = r_safe_pids r0
         \<and> r_candidates r = r_candidates r0 \<and> r_keep_pids r = r_keep_pids r0
         \<and> r_keep_tree r = r_keep_tree r0 \<and> r_verdicts r = r_verdicts r0
         \<and> r_kill_list r = r_kill_list r0
         \<and> r_signals r = fst (send_signals (dry_run w) (os_kill w) (r_kill_list r0))"
  using assms
  by (auto simp: execute_pass_def split: prod.splits if_splits)

lemma reached_iff:
  "reached w = Some r \<longleftrightarrow>
     (\<exists>r0. decide_pass w = Some (Inr r0)
        \<and> (execute_pass w r0 = Completed r \<or> (\<exists>f. execute_pass w r0 = Interrupted f r)))"
proof -
  have e: "execute_pass w r0 \<noteq> SkippedNoSessions \<and> execute_pass w r0 \<noteq> SkippedNoActiveSignals
           \<and> execute_pass w r0 \<noteq> Aborted" for r0
    by (simp add: execute_pass_def split: prod.splits)
  have d: "decide_pass w = Some (Inl out) \<Longrightarrow>
             out = SkippedNoSessions \<or> out = SkippedNoActiveSignals \<or> out = Aborted" for out
    by (auto simp: decide_pass_def Let_def split: option.splits prod.splits if_splits)
  show ?thesis
  proof (cases "decide_pass w")
    case None
    then show ?thesis by (simp add: reached_def run_cleanup_def)
  next
    case (Some x)
    show ?thesis
    proof (cases x)
      case (Inl out)
      with Some d [of out] show ?thesis by (auto simp: reached_def run_cleanup_def)
    next
      case (Inr r0)
      with Some e [of r0] show ?thesis
        by (cases "execute_pass w r0") (auto simp: reached_def run_cleanup_def)
    qed
  qed
qed

lemma reached_report:
  assumes "reached w = Some r"
  shows "\<exists>safe_pids. safe_pids_of w = Some safe_pids
           \<and> ps_call w \<noteq> PsRaises
           \<and> r_processes r = processes_of w
           \<and> r_safe_pids r = safe_pids
           \<and> r_candidates r = agent_candidates w safe_pids (processes_of w)
           \<and> r_keep_pids r = keep_pids_of w (r_candidates r)
           \<and> r_keep_tree r = keep_tree_of (r_keep_pids r) (children_of w)
           \<and> r_verdicts r = map (decide w safe_pids (r_keep_tree r)) (r_candidates r)
           \<and> r_kill_list r = kill_list_of w safe_pids (r_keep_tree r) (r_candidates r)
           \<and> r_signals r = fst (send_signals (dry_run w) (os_kill w) (r_kill_list r))"
proof -
  from assms obtain r0 where d: "decide_pass w = Some (Inr r0)"
    and e: "execute_pass w r0 = Completed r \<or> (\<exists>f. execute_pass w r0 = Interrupted f r)"
    unfolding reached_iff by blast
  from e obtain f where "execute_pass w r0 = Completed r \<or> execute_pass w r0 = Interrupted f r"
    by blast
  from execute_pass_report [OF this] decide_pass_report [OF d] show ?thesis by auto
qed

lemma run_cleanup_total:
  assumes "safe_pids_of w = Some safe_pids"
  shows "\<exists>out. run_cleanup w = Some out"
proof (cases "get_process_map (py_int w) (ps_call w)")
  case None
  then show ?thesis by (simp add: run_cleanup_def decide_pass_def)
next
  case (Some tables)
  obtain processes children where t: "tables = (processes, children)" by (cases tables)
  with Some assms have "compute_safe_pids w processes children = Some safe_pids"
    by (simp add: safe_pids_of_def processes_of_def children_of_def)
  with Some t show ?thesis
    by (simp add: run_cleanup_def decide_pass_def Let_def)
qed

lemma run_cleanup_reaches:
  assumes "safe_pids_of w = Some safe_pids"
      and "\<not> (skip_if_no_sessions w \<and> all_sessions w = [])"
      and "\<not> (require_active_signals w \<and> \<not> have_active_signals w)"
      and "ps_call w \<noteq> PsRaises"
  shows "\<exists>r. reached w = Some r"
proof -
  from assms(4) obtain tables where g: "get_process_map (py_int w) (ps_call w) = Some tables"
    by (cases "ps_call w") (auto simp: get_process_map_def)
  obtain processes children where t: "tables = (processes, children)" by (cases tables)
  with g assms(1) have "compute_safe_pids w processes children = Some safe_pids"
    by (simp add: safe_pids_of_def processes_of_def children_of_def)
  with g t assms(2,3) obtain r0 where d: "decide_pass w = Some (Inr r0)"
    by (auto simp: decide_pass_def Let_def)
  have "\<exists>r. execute_pass w r0 = Completed r \<or> (\<exists>f. execute_pass w r0 = Interrupted f r)"
    by (auto simp: execute_pass_def split: prod.splits)
  with d show ?thesis unfolding reached_iff by blast
qed

lemma visible_ancestor_cases:
  assumes "visible_ancestor ps cur a" and "map_of ps cur = Some info"
  shows "a = cur \<or> visible_ancestor ps (p_ppid info) a"
  using assms
proof (induction rule: visible_ancestor.induct)
  case (self i)
  then show ?case by simp
next
  case (parent c i i')
  then have "c = cur \<or> visible_ancestor ps (p_ppid info) c" by simp
  then show ?case
  proof
    assume "c = cur"
    with parent have "i = info" by simp
    with parent have "visible_ancestor ps (p_ppid info) (p_ppid info)"
      by (auto intro: visible_ancestor.self)
    with \<open>i = info\<close> show ?thesis by simp
  next
    assume "visible_ancestor ps (p_ppid info) c"
    with parent show ?thesis by (auto intro: visible_ancestor.parent)
  qed
qed

lemma visible_ancestor_in_table:
  "visible_ancestor ps cur a \<Longrightarrow> map_of ps cur \<noteq> None"
  by (induction rule: visible_ancestor.induct) auto

lemma add_ancestors_ends:
  assumes "ancestry_ends ps cur"
  shows "\<exists>s. add_ancestors ps cur safe = Some s \<and> set safe \<subseteq> set s
             \<and> (\<forall>a. visible_ancestor ps cur a \<longrightarrow> a \<in> set s)"
  using assms
proof (induction arbitrary: safe rule: ancestry_ends.induct)
  case (leaves cur)
  then show ?case
    using visible_ancestor_in_table [of ps cur] by (auto simp: add_ancestors.simps)
next
  case (climbs cur info)
  from climbs.IH [of "List.insert cur safe"]
  obtain s where s: "add_ancestors ps (p_ppid info) (List.insert cur safe) = Some s"
      "set (List.insert cur safe) \<subseteq> set s"
      "\<forall>a. visible_ancestor ps (p_ppid info) a \<longrightarrow> a \<in> set s" by blast
  have "add_ancestors ps cur safe = Some s"
    using climbs.hyps(1) s(1) by (subst add_ancestors.simps) simp
  moreover have "set safe \<subseteq> set s" "cur \<in> set s" using s(2) by auto
  moreover have "\<forall>a. visible_ancestor ps cur a \<longrightarrow> a \<in> set s"
    using visible_ancestor_cases [OF _ climbs.hyps(1)] s(3) \<open>cur \<in> set s\<close> by blast
  ultimately show ?case by blast
qed

lemma candidate_unique:
  assumes "reached w = Some r"
      and "c \<in> set (r_candidates r)" and "c' \<in> set (r_candidates r)" and "c_pid c' = c_pid c"
  shows "c' = c"
proof -
  from reached_report [OF assms(1)] obtain safe_pids where
    "r_candidates r = agent_candidates w safe_pids (processes_of w)" by blast
  then have "distinct (map c_pid (r_candidates r))"
    by (simp add: candidates_distinct distinct_processes)
  then have "inj_on c_pid (set (r_candidates r))" by (simp add: distinct_map)
  with assms(2-4) show ?thesis by (auto dest: inj_onD)
qed

lemma killed_pid_verdict:
  assumes "reached w = Some r"
      and "c \<in> set (r_candidates r)"
  shows "c_pid c \<in> set (map fst (r_kill_list r))
           \<longleftrightarrow> is_kill (decide w (r_safe_pids r) (r_keep_tree r) c)"
proof -
  from reached_report [OF assms(1)]
  have k: "r_kill_list r = kill_list_of w (r_safe_pids r) (r_keep_tree r) (r_candidates r)"
    by auto
  show ?thesis
  proof
    assume "c_pid c \<in> set (map fst (r_kill_list r))"
    then obtain c' where c': "c' \<in> set (r_candidates r)"
        "is_kill (decide w (r_safe_pids r) (r_keep_tree r) c')" "c_pid c' = c_pid c"
      unfolding k kill_list_pids by auto
    with candidate_unique [OF assms(1) assms(2) c'(1) c'(3)] show
      "is_kill (decide w (r_safe_pids r) (r_keep_tree r) c)" by simp
  next
    assume "is_kill (decide w (r_safe_pids r) (r_keep_tree r) c)"
    with assms(2) show "c_pid c \<in> set (map fst (r_kill_list r))"
      unfolding k kill_list_pids by auto
  qed
qed

lemma decide_active_pane:
  assumes "proc_matches_active_pane c (active_panes_by_session w)" and "\<not> lease_mismatch c"
  shows "decide w safe_pids keep_tree c \<in> {RetainSessionFilter, RetainActivePane}"
  using assms by (auto simp: decide_def Let_def lease_mismatch_def)

lemma decide_lease_mismatch:
  assumes "lease_mismatch c" and "\<not> session_excluded w c"
  shows "decide w safe_pids keep_tree c = KillLeaseMismatch"
  using assms by (simp add: decide_def Let_def lease_mismatch_def session_excluded_def)

lemma decide_kill_orphan:
  assumes "is_kill (decide w safe_pids keep_tree c)" and "\<not> lease_mismatch c" and "\<not> pane_miss w c"
  shows "c_pid c \<notin> set keep_tree
         \<and> (\<not> strict_mode w
              \<and> (session_filter w = None \<or> proc_has_active_session w (c_pid c) (active_sessions_of w))
            \<longrightarrow> c_pid c \<notin> set safe_pids)"
  using assms
  by (auto simp: decide_def Let_def lease_mismatch_def pane_miss_def is_kill_def
           split: if_splits)

lemma decide_active_hit:
  assumes "decide w safe_pids keep_tree c = RetainActiveHit"
      and "c_session c \<noteq> []" and "c_pane_id c \<noteq> []"
  shows "command_hit w c \<and> \<not> strict_mode w \<and> have_active_signals w"
  using assms
  by (simp add: decide_def Let_def active_hit_def split: if_splits option.splits)

lemma candidates_in_reached:
  assumes "c \<in> set (candidates_in w)"
  shows "\<exists>r. reached w = Some r \<and> c \<in> set (r_candidates r)"
  using assms by (cases "reached w") (simp_all add: candidates_in_def)

lemma projections_reached:
  assumes "reached w = Some r"
  shows "candidates_in w = r_candidates r" "kill_list_in w = r_kill_list r"
        "kill_pids w = map fst (r_kill_list r)" "safe_pids_in w = r_safe_pids r"
        "keep_pids_in w = r_keep_pids r" "keep_tree_in w = r_keep_tree r"
        "signals_in w = r_signals r"
        "deleted_in w = r_deleted_snapshots r"
        "verdicts_in w = zip (r_candidates r) (r_verdicts r)"
  using assms
  by (simp_all add: candidates_in_def kill_list_in_def kill_pids_def safe_pids_in_def
        keep_pids_in_def keep_tree_in_def signals_in_def deleted_in_def verdicts_in_def)

lemma projections_not_reached:
  assumes "reached w = None"
  shows "candidates_in w = []" "kill_list_in w = []" "kill_pids w = []" "signals_in w = []"
        "deleted_in w = []" "verdicts_in w = []" "keep_pids_in w = []"
        "safe_pids_in w = []" "keep_tree_in w = []"
  using assms
  by (simp_all add: candidates_in_def kill_list_in_def kill_pids_def signals_in_def
        deleted_in_def verdicts_in_def keep_pids_in_def safe_pids_in_def keep_tree_in_def)

lemma compute_safe_pids_ends:
  assumes "ancestry_ends (processes_of w) (my_pid w)"
  shows "\<exists>safe_pids. safe_pids_of w = Some safe_pids
           \<and> (\<forall>a. visible_ancestor (processes_of w) (my_pid w) a \<longrightarrow> a \<in> set safe_pids)"
proof -
  from add_ancestors_ends [OF assms]
  obtain s where s: "add_ancestors (processes_of w) (my_pid w)
                       (get_descendants (zellij_pids (processes_of w)) (children_of w)) = Some s"
      "\<forall>a. visible_ancestor (processes_of w) (my_pid w) a \<longrightarrow> a \<in> set s" by blast
  then show ?thesis
    by (auto simp: safe_pids_of_def compute_safe_pids_def Let_def)
qed

lemma zip_map_self: "zip xs (map f xs) = map (\<lambda>x. (x, f x)) xs"
  by (induction xs) auto

lemma add_ancestors_cycle:
  assumes "add_ancestors ps cur safe = Some s"
  shows "\<not> (\<exists>info. map_of ps cur = Some info \<and> p_ppid info = cur)"
proof (rule add_ancestors.raw_induct
         [where P = "\<lambda>ps cur safe s. \<not> (\<exists>info. map_of ps cur = Some info \<and> p_ppid info = cur)",
          OF _ assms])
  fix walk and ps :: process_map and cur :: int and safe s :: "int list"
  assume ih: "\<And>ps cur safe s. walk ps cur safe = Some s
                \<Longrightarrow> \<not> (\<exists>info. map_of ps cur = Some info \<and> p_ppid info = cur)"
     and st: "(case map_of ps cur of None \<Rightarrow> Some safe
               | Some info \<Rightarrow> walk ps (p_ppid info) (List.insert cur safe)) = Some s"
  show "\<not> (\<exists>info. map_of ps cur = Some info \<and> p_ppid info = cur)"
  proof
    assume "\<exists>info. map_of ps cur = Some info \<and> p_ppid info = cur"
    then obtain info where i: "map_of ps cur = Some info" "p_ppid info = cur" by blast
    with st have "walk ps cur (List.insert cur safe) = Some s" by simp
    from ih [OF this] i show False by blast
  qed
qed

text \<open>On a table whose parent links run in a cycle the walk never returns.\<close>

lemma cycle_never_returns: "safe_pids_of cycle_world = None"
proof -
  have p: "map_of (processes_of cycle_world) (my_pid cycle_world)
             = Some \<lparr>p_ppid = 7, p_etimes = Some 10, p_tty = ''?'', p_comm = ''init'',
                     p_args = ''init''\<rparr>"
    and m: "my_pid cycle_world = 7" by code_simp+
  have "add_ancestors (processes_of cycle_world) (my_pid cycle_world) safe = None" for safe
    using add_ancestors_cycle [of "processes_of cycle_world" "my_pid cycle_world" safe] p m
    by (cases "add_ancestors (processes_of cycle_world) (my_pid cycle_world) safe") auto
  then show ?thesis by (simp add: safe_pids_of_def compute_safe_pids_def)
qed

text \<open>The choice the directory-count strategy makes for one hint.\<close>

lemma preferred_subset: "set (preferred xs) \<subseteq> set xs"
  by (auto simp: preferred_def Let_def)

lemma preferred_nonempty: "xs \<noteq> [] \<Longrightarrow> preferred xs \<noteq> []"
  by (auto simp: preferred_def Let_def)

lemma preferred_best_kind:
  assumes "c \<in> set (preferred xs)" and "c' \<in> set xs"
  shows "kind_preference (c_kind c) \<le> kind_preference (c_kind c')"
proof (cases "filter (\<lambda>p. c_kind p = agent_bin) xs = []")
  case False
  with assms(1) have "c_kind c = agent_bin" by (auto simp: preferred_def Let_def)
  then show ?thesis by (simp add: kind_preference_def)
next
  case nobin: True
  then have b: "c_kind c' \<noteq> agent_bin" using assms(2) by (auto simp: filter_empty_conv)
  show ?thesis
  proof (cases "filter (\<lambda>p. c_kind p = agent_node) xs = []")
    case False
    with nobin assms(1) have "c_kind c = agent_node" by (auto simp: preferred_def Let_def)
    with b show ?thesis by (cases "c_kind c'") (simp_all add: kind_preference_def)
  next
    case True
    then have "c_kind c' \<noteq> agent_node" using assms(2) by (auto simp: filter_empty_conv)
    with b show ?thesis
      by (cases "c_kind c'"; cases "c_kind c") (simp_all add: kind_preference_def)
  qed
qed

lemma preferred_same_kind:
  assumes "c \<in> set (preferred xs)" and "c' \<in> set xs" and "c_kind c' = c_kind c"
  shows "c' \<in> set (preferred xs)"
  using assms by (auto simp: preferred_def Let_def split: if_splits)

lemma preferred_sorted:
  assumes "sorted (map f xs)"
  shows "sorted (map f (preferred xs))"
  using assms by (simp add: preferred_def Let_def sorted_filter)

lemma take_keeps_smaller_keys:
  assumes "sorted (map f xs)" and "x \<in> set (take n xs)" and "y \<in> set xs" and "f y < f x"
  shows "y \<in> set (take n xs)"
proof -
  from assms(2) obtain i where i: "i < n" "i < length xs" "xs ! i = x"
    by (auto simp: in_set_conv_nth)
  from assms(3) obtain j where j: "j < length xs" "xs ! j = y"
    by (auto simp: in_set_conv_nth)
  have "j < i"
  proof (rule ccontr)
    assume "\<not> j < i"
    then have "i \<le> j" by simp
    with assms(1) j(1) have "map f xs ! i \<le> map f xs ! j"
      by (simp add: sorted_iff_nth_mono del: nth_map)
    with i j assms(4) show False by simp
  qed
  with i j show ?thesis by (auto simp: in_set_conv_nth intro!: exI [of _ j])
qed

lemma keep_pids_of_directory:
  assumes "directory_strategy_runs w cands"
  shows "set (keep_pids_of w cands)
           = (\<Union>d \<in> fst ` set (expected_cwds w). c_pid ` set (keep_for_cwd (expected_cwds w) cands d))"
  using assms
  by (auto simp: directory_strategy_runs_def keep_pids_of_def Let_def keep_by_cwd_def)

lemma keep_for_cwd_props:
  fixes exp cands d
  defines "K \<equiv> keep_for_cwd exp cands d"
      and "M \<equiv> filter (\<lambda>c. cwd_matches (c_cwd c) d) cands"
  shows "length K \<le> counter_get exp d"
    and "set K \<subseteq> set M"
    and "\<forall>c \<in> set K. \<forall>c' \<in> set M. kind_preference (c_kind c) \<le> kind_preference (c_kind c')"
    and "\<forall>c \<in> set K. \<forall>c' \<in> set M. c_kind c' = c_kind c \<and> c_pid c < c_pid c' \<longrightarrow> c' \<in> set K"
    and "M \<noteq> [] \<and> 0 < counter_get exp d \<longrightarrow> K \<noteq> []"
proof -
  let ?S = "sort_pid_desc M"
  let ?P = "preferred ?S"
  have K: "K = (if M = [] then [] else take (counter_get exp d) ?P)"
    by (simp add: K_def M_def keep_for_cwd_def Let_def)
  have S: "set ?S = set M" by (simp add: sort_pid_desc_def)
  have sorted: "sorted (map (\<lambda>p. - c_pid p) ?P)"
    by (rule preferred_sorted) (simp add: sort_pid_desc_def)
  have sub: "set K \<subseteq> set ?P" using K by (auto dest: in_set_takeD)
  show "length K \<le> counter_get exp d" using K by simp
  show "set K \<subseteq> set M" using sub preferred_subset [of ?S] S by blast
  show "\<forall>c \<in> set K. \<forall>c' \<in> set M. kind_preference (c_kind c) \<le> kind_preference (c_kind c')"
    using sub preferred_best_kind [of _ ?S] S by blast
  show "\<forall>c \<in> set K. \<forall>c' \<in> set M. c_kind c' = c_kind c \<and> c_pid c < c_pid c' \<longrightarrow> c' \<in> set K"
  proof (intro ballI impI)
    fix c c' assume c: "c \<in> set K" and c': "c' \<in> set M"
      and h: "c_kind c' = c_kind c \<and> c_pid c < c_pid c'"
    from c K have ne: "M \<noteq> []" and ct: "c \<in> set (take (counter_get exp d) ?P)"
      by (auto split: if_splits)
    from c sub have "c \<in> set ?P" by blast
    with c' h S have "c' \<in> set ?P" using preferred_same_kind [of c ?S c'] by blast
    with take_keeps_smaller_keys [OF sorted ct, of c'] h
    have "c' \<in> set (take (counter_get exp d) ?P)" by simp
    with K ne show "c' \<in> set K" by simp
  qed
  show "M \<noteq> [] \<and> 0 < counter_get exp d \<longrightarrow> K \<noteq> []"
  proof
    assume a: "M \<noteq> [] \<and> 0 < counter_get exp d"
    then have "?S \<noteq> []" using S by (metis set_empty)
    then have "?P \<noteq> []" by (rule preferred_nonempty)
    with a K show "K \<noteq> []" by (cases ?P) auto
  qed
qed


lemma keep_pids_in_eq: "keep_pids_in w = keep_pids_of w (candidates_in w) \<or> reached w = None"
proof (cases "reached w")
  case None
  then show ?thesis by simp
next
  case (Some r)
  from reached_report [OF Some] show ?thesis by (auto simp: projections_reached [OF Some])
qed


text \<open>The safe-pid set holds pids of the process table only.\<close>

lemma update_keys: "fst ` set (AList.update k v al) = insert k (fst ` set al)"
  by (induction al) auto

lemma update_values: "set (AList.update k v al) \<subseteq> insert (k, v) (set al)"
  by (induction al) auto

lemma add_row_children_known:
  assumes "child_universe (snd acc) \<subseteq> fst ` set (fst acc)"
  shows "child_universe (snd (add_row to_int acc parts))
           \<subseteq> fst ` set (fst (add_row to_int acc parts))"
proof (cases acc)
  case (Pair processes children)
  have u: "child_universe (AList.update ppid (children_get children ppid @ [pid]) children)
             \<subseteq> insert pid (child_universe children)" for ppid pid
  proof
    fix x assume "x \<in> child_universe (AList.update ppid (children_get children ppid @ [pid]) children)"
    then obtain e where e: "e \<in> set (AList.update ppid (children_get children ppid @ [pid]) children)"
        "x \<in> set (snd e)" by (auto simp: child_universe_def)
    from e(1) update_values [of ppid _ children]
    have "e = (ppid, children_get children ppid @ [pid]) \<or> e \<in> set children" by blast
    then show "x \<in> insert pid (child_universe children)"
    proof
      assume "e = (ppid, children_get children ppid @ [pid])"
      with e(2) children_get_universe [of children ppid] show ?thesis by auto
    next
      assume "e \<in> set children"
      with e(2) show ?thesis by (auto simp: child_universe_def)
    qed
  qed
  from assms Pair have a: "child_universe children \<subseteq> fst ` set processes" by simp
  show ?thesis
    unfolding Pair add_row_def
    using a u by (auto simp: update_keys split: option.splits)
qed

lemma foldl_add_row_children_known:
  "child_universe (snd acc) \<subseteq> fst ` set (fst acc)
     \<Longrightarrow> child_universe (snd (foldl (add_row to_int) acc rows))
           \<subseteq> fst ` set (fst (foldl (add_row to_int) acc rows))"
  by (induction rows arbitrary: acc) (simp_all add: add_row_children_known)

lemma children_known: "child_universe (children_of w) \<subseteq> fst ` set (processes_of w)"
proof (cases "ps_call w")
  case (PsRows rows)
  have "child_universe (snd ([] :: process_map, [] :: children_map)) \<subseteq> fst ` set (fst ([] :: process_map, [] :: children_map))"
    by (simp add: child_universe_def)
  from foldl_add_row_children_known [OF this, of "py_int w" rows] PsRows show ?thesis
    by (simp add: processes_of_def children_of_def get_process_map_def)
qed (simp_all add: processes_of_def children_of_def get_process_map_def child_universe_def)

lemma child_rel_range: "(p, c) \<in> child_rel children \<Longrightarrow> c \<in> child_universe children"
  using children_get_universe [of children p] by (auto simp: child_rel_def)

lemma get_descendants_within:
  "set (get_descendants roots children) \<subseteq> set roots \<union> child_universe children"
proof
  fix x assume "x \<in> set (get_descendants roots children)"
  then obtain r where r: "r \<in> set roots" "(r, x) \<in> (child_rel children)\<^sup>*"
    unfolding get_descendants_reach by blast
  from r(2) r(1) show "x \<in> set roots \<union> child_universe children"
    by (induction rule: rtrancl_induct) (auto dest: child_rel_range)
qed

lemma add_ancestors_within:
  assumes "ancestry_ends ps cur" and "add_ancestors ps cur safe = Some s"
  shows "set s \<subseteq> set safe \<union> fst ` set ps"
  using assms
proof (induction arbitrary: safe rule: ancestry_ends.induct)
  case (leaves cur)
  then show ?case by (simp add: add_ancestors.simps)
next
  case (climbs cur info)
  from climbs.hyps(1) have k: "cur \<in> fst ` set ps" by (force dest: map_of_SomeD)
  from climbs.prems climbs.hyps(1)
  have "add_ancestors ps (p_ppid info) (List.insert cur safe) = Some s"
    by (subst (asm) add_ancestors.simps) simp
  from climbs.IH [OF this] k show ?case by auto
qed

lemma compute_safe_pids_within:
  assumes "ancestry_ends (processes_of w) (my_pid w)" and "safe_pids_of w = Some safe_pids"
  shows "set safe_pids \<subseteq> fst ` set (processes_of w)"
proof -
  let ?ps = "processes_of w" and ?ch = "children_of w"
  from assms(2) obtain s where
    s: "add_ancestors ?ps (my_pid w) (get_descendants (zellij_pids ?ps) ?ch) = Some s"
    by (auto simp: safe_pids_of_def compute_safe_pids_def split: option.splits)
  have z: "set (zellij_pids ?ps) \<subseteq> fst ` set ?ps" by (auto simp: zellij_pids_def)
  have t: "set (find_tmux_servers_for_sockets re socks ?ps) \<subseteq> fst ` set ?ps" for re socks
    by (auto simp: find_tmux_servers_for_sockets_def)
  have d: "set (get_descendants roots ?ch) \<subseteq> fst ` set ?ps" if "set roots \<subseteq> fst ` set ?ps" for roots
    using get_descendants_within [of roots ?ch] children_known [of w] that by blast
  have ss: "set s \<subseteq> fst ` set ?ps"
    using add_ancestors_within [OF assms(1) s] d [OF z] by blast
  let ?socks = "find_safe_tmux_sockets (socket_re_search w) s ?ps"
  let ?extra = "get_descendants (find_tmux_servers_for_sockets (socket_re_search w) ?socks ?ps) ?ch"
  have e: "set ?extra \<subseteq> fst ` set ?ps" by (rule d [OF t])
  from assms(2) s have "safe_pids = s \<or> safe_pids = List.union s ?extra"
    by (auto simp: safe_pids_of_def compute_safe_pids_def Let_def split: if_splits)
  then show ?thesis
  proof
    assume "safe_pids = s"
    with ss show ?thesis by simp
  next
    assume "safe_pids = List.union s ?extra"
    with ss e show ?thesis by (simp only: set_union) blast
  qed
qed

lemma empty_table_no_children: "processes_of w = [] \<Longrightarrow> child_universe (children_of w) = {}"
  using children_known [of w] by simp

text \<open>The signal phases: the pids signalled are an initial part of the kill list.\<close>

lemma signal_phase_sent:
  "fst (signal_phase kill sg pids)
     = map (\<lambda>pid. (pid, sg)) (takeWhile (\<lambda>pid. kill pid sg \<noteq> OtherOSError) pids)"
  by (induction pids) (auto split: prod.splits)

lemma signal_phase_raised:
  "snd (signal_phase kill sg pids) \<longleftrightarrow> (\<exists>pid \<in> set pids. kill pid sg = OtherOSError)"
  by (induction pids) (auto split: prod.splits)

lemma signal_phase_filter:
  "filter (\<lambda>s. snd s = sg') (fst (signal_phase kill sg pids))
     = (if sg' = sg then fst (signal_phase kill sg pids) else [])"
  by (auto simp: signal_phase_sent filter_map comp_def)

lemma send_signals_phases:
  "\<exists>n. map fst (filter (\<lambda>s. snd s = sg) (fst (send_signals dry kill kill_list)))
          = take n (map fst kill_list)"
proof -
  let ?T = "fst (signal_phase kill SIGTERM (map fst kill_list))"
  let ?K = "fst (signal_phase kill SIGKILL (map fst kill_list))"
  have p: "\<exists>n. map fst (fst (signal_phase kill sg' pids)) = take n pids" for sg' pids
    by (rule exI [of _ "length (takeWhile (\<lambda>pid. kill pid sg' \<noteq> OtherOSError) pids)"])
       (simp add: signal_phase_sent comp_def takeWhile_eq_take [symmetric])
  have e: "\<exists>n. [] = take n (map fst kill_list)" by (rule exI [of _ 0]) simp
  have "fst (send_signals dry kill kill_list) = []
          \<or> fst (send_signals dry kill kill_list) = ?T
          \<or> fst (send_signals dry kill kill_list) = ?T @ ?K"
    by (cases dry; cases "signal_phase kill SIGTERM (map fst kill_list)";
        cases "signal_phase kill SIGKILL (map fst kill_list)")
       (auto simp: send_signals_def)
  then consider (1) "fst (send_signals dry kill kill_list) = []"
    | (2) "fst (send_signals dry kill kill_list) = ?T"
    | (3) "fst (send_signals dry kill kill_list) = ?T @ ?K"
    by blast
  then show ?thesis
  proof cases
    case 1
    with e show ?thesis by simp
  next
    case 2
    show ?thesis
      using p [of SIGTERM "map fst kill_list"] e
      by (cases sg) (simp_all add: 2 signal_phase_filter)
  next
    case 3
    show ?thesis
      using p [of SIGTERM "map fst kill_list"] p [of SIGKILL "map fst kill_list"]
      by (cases sg) (simp_all add: 3 signal_phase_filter)
  qed
qed

lemma signal_phase_all:
  assumes "\<forall>pid sg. kill pid sg \<noteq> OtherOSError"
  shows "signal_phase kill sg pids = (map (\<lambda>pid. (pid, sg)) pids, False)"
  using assms by (induction pids) auto

lemma send_signals_all:
  assumes "\<forall>pid sg. kill pid sg \<noteq> OtherOSError"
  shows "map fst (filter (\<lambda>s. snd s = sg) (fst (send_signals dry kill kill_list)))
           = (if dry then [] else map fst kill_list)"
  using assms
  by (cases sg) (simp_all add: send_signals_def signal_phase_all filter_map comp_def)

text \<open>Nothing a pass decides depends on the dry-run switch.\<close>

lemma dry_run_irrelevant:
  "pane_layout_signals (w\<lparr>dry_run := b\<rparr>) = pane_layout_signals w"
  "have_active_signals (w\<lparr>dry_run := b\<rparr>) = have_active_signals w"
  "active_sessions_of (w\<lparr>dry_run := b\<rparr>) = active_sessions_of w"
  "processes_of (w\<lparr>dry_run := b\<rparr>) = processes_of w"
  "children_of (w\<lparr>dry_run := b\<rparr>) = children_of w"
  by (simp_all add: pane_layout_signals_def have_active_signals_def active_sessions_of_def
        processes_of_def children_of_def Let_def
        cong: if_cong option.case_cong prod.case_cong)

lemma dry_run_irrelevant_fun:
  "is_agent_process (w\<lparr>dry_run := b\<rparr>) = is_agent_process w"
  "lease_check (w\<lparr>dry_run := b\<rparr>) = lease_check w"
  "proc_has_active_session (w\<lparr>dry_run := b\<rparr>) = proc_has_active_session w"
  "command_hit (w\<lparr>dry_run := b\<rparr>) = command_hit w"
  "cwd_hit (w\<lparr>dry_run := b\<rparr>) = cwd_hit w"
  "compute_safe_pids (w\<lparr>dry_run := b\<rparr>) = compute_safe_pids w"
  by (intro ext,
      simp add: is_agent_process_def lease_check_def proc_has_active_session_def
        command_hit_def cwd_hit_def compute_safe_pids_def Let_def
        cong: if_cong option.case_cong prod.case_cong)+

lemma strict_mode_dry: "strict_mode (w\<lparr>dry_run := b\<rparr>) = strict_mode w"
  by (simp add: strict_mode_def dry_run_irrelevant)

lemma dry_run_irrelevant_fun2:
  "classify (w\<lparr>dry_run := b\<rparr>) = classify w"
  "pane_groups_of (w\<lparr>dry_run := b\<rparr>) = pane_groups_of w"
  "snapshot_is_stale (w\<lparr>dry_run := b\<rparr>) = snapshot_is_stale w"
  "session_is_pruned (w\<lparr>dry_run := b\<rparr>) = session_is_pruned w"
  "active_hit (w\<lparr>dry_run := b\<rparr>) = active_hit w"
  by (intro ext,
      simp add: classify_def pane_groups_of_def snapshot_is_stale_def session_is_pruned_def
        active_hit_def strict_mode_dry dry_run_irrelevant dry_run_irrelevant_fun Let_def
        cong: if_cong option.case_cong prod.case_cong)+

lemma stale_files_dry: "stale_files (w\<lparr>dry_run := b\<rparr>) = stale_files w"
  by (simp add: stale_files_def dry_run_irrelevant_fun2 Let_def
        cong: if_cong option.case_cong prod.case_cong telemetry_root.case_cong)

lemma dry_run_irrelevant_fun3:
  "agent_candidates (w\<lparr>dry_run := b\<rparr>) = agent_candidates w"
  "keep_pids_of (w\<lparr>dry_run := b\<rparr>) = keep_pids_of w"
  "decide (w\<lparr>dry_run := b\<rparr>) = decide w"
  by (intro ext,
      simp add: agent_candidates_def keep_pids_of_def decide_def strict_mode_dry
        dry_run_irrelevant dry_run_irrelevant_fun dry_run_irrelevant_fun2 Let_def
        cong: if_cong option.case_cong prod.case_cong)+

lemma kill_list_of_dry:
  "kill_list_of (w\<lparr>dry_run := b\<rparr>) = kill_list_of w"
  by (intro ext) (simp add: kill_list_of_def dry_run_irrelevant_fun3)

lemma decide_pass_dry: "decide_pass (w\<lparr>dry_run := b\<rparr>) = decide_pass w"
proof (cases "get_process_map (py_int w) (ps_call w)")
  case None
  then show ?thesis by (simp add: decide_pass_def)
next
  case (Some tables)
  obtain processes children where t: "tables = (processes, children)" by (cases tables)
  show ?thesis
  proof (cases "compute_safe_pids w processes children")
    case None
    with Some t show ?thesis by (simp add: decide_pass_def dry_run_irrelevant_fun)
  next
    case (Some safe_pids)
    with \<open>get_process_map (py_int w) (ps_call w) = Some tables\<close> t show ?thesis
      by (simp add: decide_pass_def dry_run_irrelevant dry_run_irrelevant_fun
            dry_run_irrelevant_fun3 kill_list_of_dry Let_def)
  qed
qed

text \<open>The pruner in a dry run and in a real run.\<close>

lemma prune_sessions_raised:
  "snd (snd (prune_sessions w ds))
     \<longleftrightarrow> (\<exists>d \<in> set ds. session_is_pruned w d \<and> d_files d = None)"
  by (induction ds) (auto split: option.splits prod.splits)

lemma prune_sessions_dry_deleted:
  "dry_run w \<Longrightarrow> fst (snd (prune_sessions w ds)) = []"
  by (induction ds) (auto simp: prune_session_def Let_def split: option.splits prod.splits)

lemma prune_sessions_dry_count:
  "dry_run w \<Longrightarrow> \<not> snd (snd (prune_sessions w ds))
     \<Longrightarrow> fst (prune_sessions w ds)
           = length (concat (map (\<lambda>d. if session_is_pruned w d
                                     then (case d_files d of
                                             None \<Rightarrow> []
                                           | Some files \<Rightarrow>
                                               map (\<lambda>f. (d_name d, f))
                                                 (filter (snapshot_is_stale w (d_name d)) files))
                                     else []) ds))"
  by (induction ds) (auto simp: prune_session_def Let_def split: option.splits prod.splits)

lemma prune_sessions_real_count:
  "\<not> dry_run w \<Longrightarrow> \<not> snd (snd (prune_sessions w ds))
     \<Longrightarrow> fst (prune_sessions w ds)
           = length (filter (\<lambda>e. f_remove (snd e) = Removed)
                       (concat (map (\<lambda>d. if session_is_pruned w d
                                     then (case d_files d of
                                             None \<Rightarrow> []
                                           | Some files \<Rightarrow>
                                               map (\<lambda>f. (d_name d, f))
                                                 (filter (snapshot_is_stale w (d_name d)) files))
                                     else []) ds)))"
proof (induction ds)
  case Nil
  show ?case by simp
next
  case (Cons d ds)
  show ?case
  proof (cases "session_is_pruned w d")
    case False
    with Cons show ?thesis by simp
  next
    case True
    with Cons.prems obtain files where f: "d_files d = Some files"
      by (cases "d_files d") auto
    with True Cons.prems have "\<not> snd (snd (prune_sessions w ds))"
      by (auto split: prod.splits)
    from Cons.IH [OF Cons.prems(1) this] True f Cons.prems(1) show ?thesis
      by (cases "prune_sessions w ds")
         (simp add: prune_session_def Let_def filter_map comp_def)
  qed
qed

lemma prune_raised_dry:
  "snd (snd (prune_runtime_snapshots (w\<lparr>dry_run := b\<rparr>))) = snd (snd (prune_runtime_snapshots w))"
  by (cases "telemetry w")
     (simp_all add: prune_runtime_snapshots_def prune_sessions_raised dry_run_irrelevant_fun2)

lemma prune_dry_deleted:
  "fst (snd (prune_runtime_snapshots (w\<lparr>dry_run := True\<rparr>))) = []"
  by (cases "telemetry w")
     (simp_all add: prune_runtime_snapshots_def prune_sessions_dry_deleted)

lemma prune_dry_count:
  assumes "\<not> snd (snd (prune_runtime_snapshots w))"
  shows "fst (prune_runtime_snapshots (w\<lparr>dry_run := True\<rparr>)) = length (stale_files w)"
proof (cases "telemetry w")
  case (RootEntries dirs)
  with assms have "\<not> snd (snd (prune_sessions (w\<lparr>dry_run := True\<rparr>) dirs))"
    by (simp add: prune_runtime_snapshots_def prune_sessions_raised dry_run_irrelevant_fun2)
  from prune_sessions_dry_count [OF _ this] RootEntries show ?thesis
    by (simp add: prune_runtime_snapshots_def stale_files_def dry_run_irrelevant_fun2
          cong: if_cong option.case_cong)
qed (simp_all add: prune_runtime_snapshots_def stale_files_def)

lemma prune_real_count:
  assumes "\<not> snd (snd (prune_runtime_snapshots w))"
  shows "fst (prune_runtime_snapshots (w\<lparr>dry_run := False\<rparr>))
           = length (filter (\<lambda>e. f_remove (snd e) = Removed) (stale_files w))"
proof (cases "telemetry w")
  case (RootEntries dirs)
  with assms have "\<not> snd (snd (prune_sessions (w\<lparr>dry_run := False\<rparr>) dirs))"
    by (simp add: prune_runtime_snapshots_def prune_sessions_raised dry_run_irrelevant_fun2)
  from prune_sessions_real_count [OF _ this] RootEntries show ?thesis
    by (simp add: prune_runtime_snapshots_def stale_files_def dry_run_irrelevant_fun2
          cong: if_cong option.case_cong)
qed (simp_all add: prune_runtime_snapshots_def stale_files_def)

text \<open>The two ways the process listing can fail, and the empty table.\<close>

lemma listing_error_status_kills_nothing:
  assumes "ps_call w = PsCalledProcessError"
  shows "get_process_map (py_int w) (ps_call w) = Some ([], [])
         \<and> (\<exists>out. run_cleanup w = Some out \<and> out \<noteq> Aborted)
         \<and> candidates_in w = [] \<and> kill_list_in w = [] \<and> signals_in w = []"
proof -
  have g: "get_process_map (py_int w) (ps_call w) = Some ([], [])"
    using assms by (simp add: get_process_map_def)
  then have p: "processes_of w = []" "children_of w = []"
    by (simp_all add: processes_of_def children_of_def)
  have s: "safe_pids_of w = Some []"
    by (simp add: safe_pids_of_def compute_safe_pids_def p add_ancestors.simps zellij_pids_def
          get_descendants_def find_safe_tmux_sockets_def)
  from run_cleanup_total [OF s] obtain out where out: "run_cleanup w = Some out" by blast
  have na: "out \<noteq> Aborted"
    using out g by (auto simp: run_cleanup_def decide_pass_def execute_pass_def Let_def
                         split: option.splits sum.splits prod.splits if_splits)
  have "candidates_in w = [] \<and> kill_list_in w = [] \<and> signals_in w = []"
  proof (cases "reached w")
    case None
    then show ?thesis by (simp add: projections_not_reached)
  next
    case (Some r)
    from reached_report [OF Some] p
    have c: "r_candidates r = []" by (auto simp: agent_candidates_def List.map_filter_simps)
    from reached_report [OF Some] c
    have k: "r_kill_list r = []" by (auto simp: kill_list_of_def)
    from reached_report [OF Some] k
    have "r_signals r = []" by (auto simp: send_signals_def)
    with c k show ?thesis by (simp add: projections_reached [OF Some])
  qed
  with g out na show ?thesis by blast
qed

lemma uncaught_listing_exception_aborts:
  assumes "ps_call w = PsRaises"
  shows "get_process_map (py_int w) (ps_call w) = None \<and> run_cleanup w = Some Aborted
         \<and> kill_list_in w = [] \<and> signals_in w = []"
proof -
  have g: "get_process_map (py_int w) (ps_call w) = None"
    using assms by (simp add: get_process_map_def)
  then have r: "run_cleanup w = Some Aborted" by (simp add: run_cleanup_def decide_pass_def)
  then have "reached w = None" by (simp add: reached_def)
  with g r show ?thesis by (simp add: projections_not_reached)
qed

lemma empty_table_safe_pids:
  assumes "processes_of w = []"
  shows "safe_pids_of w = Some []"
proof -
  have "child_universe (children_of w) = {}" using assms by (rule empty_table_no_children)
  then have c: "children_get (children_of w) k = []" for k
    using children_get_universe [of "children_of w" k] by simp
  have d: "get_descendants [] (children_of w) = []" by (simp add: get_descendants_def)
  show ?thesis
    by (simp add: safe_pids_of_def compute_safe_pids_def assms add_ancestors.simps
          zellij_pids_def d find_safe_tmux_sockets_def)
qed

subsection \<open>Dry run and real run\<close>

text \<open>
  What a pass decides does not depend on \<open>dry_run\<close>; only its execution does. A dry
  run sends nothing, so it is never interrupted by a refused signal, and it counts every
  stale snapshot.
\<close>

lemma decide_pass_Inl:
  assumes "decide_pass w = Some (Inl out)"
  shows "out = SkippedNoSessions \<or> out = SkippedNoActiveSignals \<or> out = Aborted"
  using assms
  by (auto simp: decide_pass_def Let_def split: option.splits prod.splits if_splits)

lemma execute_pass_dry:
  "execute_pass (w\<lparr>dry_run := True\<rparr>) r0
     = (if snd (snd (prune_runtime_snapshots w))
        then Interrupted ListdirRaised (r0\<lparr>r_signals := [], r_deleted_snapshots := []\<rparr>)
        else Completed (r0\<lparr>r_signals := [], r_removed_snapshots := length (stale_files w),
                           r_deleted_snapshots := []\<rparr>))"
proof -
  obtain m del raised where p: "prune_runtime_snapshots (w\<lparr>dry_run := True\<rparr>) = (m, del, raised)"
    by (cases "prune_runtime_snapshots (w\<lparr>dry_run := True\<rparr>)")
  from p prune_dry_deleted [of w] have d: "del = []" by simp
  from p prune_raised_dry [where w = w and b = True] have r: "raised = snd (snd (prune_runtime_snapshots w))"
    by simp
  from p prune_dry_count [of w] r have c: "\<not> raised \<Longrightarrow> m = length (stale_files w)" by simp
  show ?thesis using p d r c by (simp add: execute_pass_def send_signals_def)
qed

lemma execute_pass_real_completed:
  assumes "execute_pass (w\<lparr>dry_run := False\<rparr>) r0 = Completed r"
  shows "\<not> snd (snd (prune_runtime_snapshots w))
         \<and> r_removed_snapshots r
             = length (filter (\<lambda>e. f_remove (snd e) = Removed) (stale_files w))"
proof -
  obtain m del raised where p: "prune_runtime_snapshots (w\<lparr>dry_run := False\<rparr>) = (m, del, raised)"
    by (cases "prune_runtime_snapshots (w\<lparr>dry_run := False\<rparr>)")
  from assms p have n: "\<not> raised" "r_removed_snapshots r = m"
    by (auto simp: execute_pass_def split: prod.splits if_splits)
  from p prune_raised_dry [where w = w and b = False] n(1) have q: "\<not> snd (snd (prune_runtime_snapshots w))"
    by simp
  from prune_real_count [OF q] p n q show ?thesis by simp
qed

lemma execute_pass_reaches:
  "\<exists>r. execute_pass w r0 = Completed r \<or> (\<exists>f. execute_pass w r0 = Interrupted f r)"
  by (auto simp: execute_pass_def split: prod.splits)

lemma decided_projections:
  assumes "decide_pass w = Some (Inr r0)"
  shows "run_cleanup w = Some (execute_pass w r0)" "kill_list_in w = r_kill_list r0"
        "reached w \<noteq> None"
proof -
  show 1: "run_cleanup w = Some (execute_pass w r0)" using assms by (simp add: run_cleanup_def)
  from execute_pass_reaches [of w r0] obtain r where
    e: "execute_pass w r0 = Completed r \<or> (\<exists>f. execute_pass w r0 = Interrupted f r)" by blast
  with assms have r: "reached w = Some r" unfolding reached_iff by blast
  then show "reached w \<noteq> None" by simp
  from e obtain f where "execute_pass w r0 = Completed r \<or> execute_pass w r0 = Interrupted f r"
    by blast
  from execute_pass_report [OF this] r show "kill_list_in w = r_kill_list r0"
    by (simp add: projections_reached)
qed

lemma undecided_projections:
  assumes "\<forall>r0. decide_pass w \<noteq> Some (Inr r0)"
  shows "reached w = None" "removed_in w = None"
        "run_cleanup w = (case decide_pass w of Some (Inl out) \<Rightarrow> Some out | _ \<Rightarrow> None)"
proof -
  show 1: "reached w = None"
    using assms reached_iff [of w] by (cases "reached w") auto
  show 3: "run_cleanup w = (case decide_pass w of Some (Inl out) \<Rightarrow> Some out | _ \<Rightarrow> None)"
    using assms by (auto simp: run_cleanup_def split: option.splits sum.splits)
  show "removed_in w = None"
    using 1 by (auto simp: removed_in_def reached_def split: option.splits outcome.splits)
qed

text \<open>
  A signal refused with an error other than \<open>ProcessLookupError\<close> interrupts the real
  pass before any snapshot is pruned: it reports no pruned-snapshot count, while the dry
  run of the same world reports one.
\<close>

lemma refused_signal_interrupts_pass:
  "removed_in (refused_world\<lparr>dry_run := True\<rparr>) = Some 1
   \<and> removed_in (refused_world\<lparr>dry_run := False\<rparr>) = None
   \<and> signals_in (refused_world\<lparr>dry_run := False\<rparr>) = []
   \<and> deleted_in (refused_world\<lparr>dry_run := False\<rparr>) = []
   \<and> kill_list_in (refused_world\<lparr>dry_run := False\<rparr>) = [(200, ''claude'')]"
  by code_simp

section \<open>Properties\<close>

text \<open>
  C1 (as amended). A candidate without a lease-instance mismatch whose recorded session
  and pane id match a live pane of the active-pane index never has its pid on the kill
  list. (With a lease-instance mismatch it is killed although its pane is live: the
  mismatch rule comes before the pane match.)
\<close>

theorem active_pane_match_never_killed:
  assumes "c \<in> set (candidates_in w)"
      and "proc_matches_active_pane c (active_panes_by_session w)"
      and "\<not> lease_mismatch c"
  shows "c_pid c \<notin> set (kill_pids w)"
proof -
  from candidates_in_reached [OF assms(1)] obtain r where
    r: "reached w = Some r" and c: "c \<in> set (r_candidates r)" by blast
  have "\<not> is_kill (decide w (r_safe_pids r) (r_keep_tree r) c)"
    using decide_active_pane [OF assms(2,3), of "r_safe_pids r" "r_keep_tree r"]
    by (auto simp: is_kill_def)
  then show ?thesis
    using killed_pid_verdict [OF r c] by (simp add: projections_reached(3) [OF r])
qed

theorem active_pane_match_never_killed_witness:
  "pane_candidate \<in> set (candidates_in pane_world)
   \<and> proc_matches_active_pane pane_candidate (active_panes_by_session pane_world)
   \<and> \<not> lease_mismatch pane_candidate
   \<and> c_pid pane_candidate \<notin> set (kill_pids pane_world)"
proof -
  have a: "pane_candidate \<in> set (candidates_in pane_world)" by code_simp
  have b: "proc_matches_active_pane pane_candidate (active_panes_by_session pane_world)"
    by code_simp
  have c: "\<not> lease_mismatch pane_candidate" by code_simp
  from active_pane_match_never_killed [OF a b c] a b c show ?thesis by blast
qed

text \<open>
  C1 as stated fails: the agent of pane 3 is in a live pane and is killed all the same,
  because its lease names another instance.
\<close>

theorem active_pane_match_killed_on_lease_mismatch:
  "candidates_in lease_world = [lease_candidate]
   \<and> proc_matches_active_pane lease_candidate (active_panes_by_session lease_world)
   \<and> c_pid lease_candidate = 200
   \<and> kill_pids lease_world = [200]"
  by code_simp

text \<open>
  C2 (as amended). On a pass that reaches the kill decision (the process listing does not
  raise, the ancestry walk ends and neither skip applies), every candidate with a
  lease-instance mismatch that the session filter does not exclude is placed on the kill
  list, whatever the safe-pid set and the keep tree contain. (A candidate of a session
  outside the filter is left alone before its lease is looked at.)
\<close>

theorem lease_mismatch_killed:
  assumes "ancestry_ends (processes_of w) (my_pid w)"
      and "\<not> (skip_if_no_sessions w \<and> all_sessions w = [])"
      and "\<not> (require_active_signals w \<and> \<not> have_active_signals w)"
      and "ps_call w \<noteq> PsRaises"
  shows "\<exists>r. reached w = Some r
           \<and> (\<forall>c \<in> set (r_candidates r).
                 lease_mismatch c \<and> \<not> session_excluded w c
                 \<longrightarrow> (c_pid c, c_args c) \<in> set (r_kill_list r))"
proof -
  from compute_safe_pids_ends [OF assms(1)] obtain safe_pids where
    "safe_pids_of w = Some safe_pids" by blast
  from run_cleanup_reaches [OF this assms(2,3,4)] obtain r where
    r: "reached w = Some r" by blast
  from reached_report [OF r]
  have k: "r_kill_list r = kill_list_of w (r_safe_pids r) (r_keep_tree r) (r_candidates r)"
    by auto
  have "(c_pid c, c_args c) \<in> set (r_kill_list r)"
    if "c \<in> set (r_candidates r)" "lease_mismatch c" "\<not> session_excluded w c" for c
    using that decide_lease_mismatch [OF that(2,3), of "r_safe_pids r" "r_keep_tree r"]
    unfolding k kill_list_of_def by (auto simp: is_kill_def)
  with r show ?thesis by blast
qed

theorem lease_mismatch_killed_witness:
  "ancestry_ends (processes_of lease_world) (my_pid lease_world)
   \<and> lease_candidate \<in> set (candidates_in lease_world)
   \<and> lease_mismatch lease_candidate
   \<and> \<not> session_excluded lease_world lease_candidate
   \<and> (c_pid lease_candidate, c_args lease_candidate) \<in> set (kill_list_in lease_world)
   \<and> c_pid lease_candidate \<in> set (safe_pids_in lease_world)
   \<and> c_pid lease_candidate \<in> set (keep_tree_in lease_world)"
proof -
  have "map_of (processes_of lease_world) (my_pid lease_world) = None" by code_simp
  then have e: "ancestry_ends (processes_of lease_world) (my_pid lease_world)"
    by (rule ancestry_ends.leaves)
  have s: "\<not> (skip_if_no_sessions lease_world \<and> all_sessions lease_world = [])"
    by code_simp
  have q: "\<not> (require_active_signals lease_world \<and> \<not> have_active_signals lease_world)"
    by code_simp
  have l: "ps_call lease_world \<noteq> PsRaises" by code_simp
  have c: "lease_candidate \<in> set (candidates_in lease_world)" by code_simp
  have m: "lease_mismatch lease_candidate" by code_simp
  have x: "\<not> session_excluded lease_world lease_candidate" by code_simp
  from lease_mismatch_killed [OF e s q l] obtain r where
    r: "reached lease_world = Some r"
    and k: "\<forall>c \<in> set (r_candidates r). lease_mismatch c \<and> \<not> session_excluded lease_world c
              \<longrightarrow> (c_pid c, c_args c) \<in> set (r_kill_list r)" by blast
  from c k m x have "(c_pid lease_candidate, c_args lease_candidate) \<in> set (kill_list_in lease_world)"
    by (simp add: projections_reached [OF r])
  moreover have "c_pid lease_candidate \<in> set (safe_pids_in lease_world)" by code_simp
  moreover have "c_pid lease_candidate \<in> set (keep_tree_in lease_world)" by code_simp
  ultimately show ?thesis using e c m x by blast
qed

text \<open>
  C2 as stated fails: with the cleanup restricted to another session, the agent with the
  lease-instance mismatch is left alone.
\<close>

theorem lease_mismatch_spared_by_session_filter:
  "candidates_in filtered_world = [lease_candidate]
   \<and> lease_mismatch lease_candidate
   \<and> kill_list_in filtered_world = []"
  by code_simp

text \<open>
  C3 (as amended). For every process table on which the parent walk from the tool's pid
  ends, the safe-pid set is computed; it contains the tool's own pid if that pid is a key
  of the table, and every ancestor reached from it through parent links inside the
  table; and it contains keys of the table only. For an empty table, and so for a listing
  that failed with \<^verbatim>\<open>CalledProcessError\<close>, the safe-pid set is empty and does not contain
  the tool's pid. (When the listing raises another exception there is no table, and the
  pass computes no safe-pid set.)
\<close>

theorem safe_pids_contain_visible_ancestry:
  "(ps_call w \<noteq> PsRaises \<and> ancestry_ends (processes_of w) (my_pid w)
      \<longrightarrow> (\<exists>safe_pids. safe_pids_of w = Some safe_pids
             \<and> (\<forall>a. visible_ancestor (processes_of w) (my_pid w) a \<longrightarrow> a \<in> set safe_pids)
             \<and> set safe_pids \<subseteq> fst ` set (processes_of w)
             \<and> (\<forall>r. reached w = Some r \<longrightarrow> r_safe_pids r = safe_pids)))
   \<and> (ps_call w \<noteq> PsRaises \<and> processes_of w = []
        \<longrightarrow> safe_pids_of w = Some [] \<and> my_pid w \<notin> set (safe_pids_in w))
   \<and> (ps_call w = PsCalledProcessError
        \<longrightarrow> processes_of w = [] \<and> safe_pids_of w = Some []
            \<and> my_pid w \<notin> set (safe_pids_in w))
   \<and> (ps_call w = PsRaises \<longrightarrow> reached w = None \<and> safe_pids_in w = [])"
proof -
  have 1: "\<exists>safe_pids. safe_pids_of w = Some safe_pids
          \<and> (\<forall>a. visible_ancestor (processes_of w) (my_pid w) a \<longrightarrow> a \<in> set safe_pids)
          \<and> set safe_pids \<subseteq> fst ` set (processes_of w)
          \<and> (\<forall>r. reached w = Some r \<longrightarrow> r_safe_pids r = safe_pids)"
    if e: "ancestry_ends (processes_of w) (my_pid w)"
  proof -
    from compute_safe_pids_ends [OF e] obtain safe_pids where
      s: "safe_pids_of w = Some safe_pids"
         "\<forall>a. visible_ancestor (processes_of w) (my_pid w) a \<longrightarrow> a \<in> set safe_pids" by blast
    have "r_safe_pids r = safe_pids" if "reached w = Some r" for r
      using reached_report [OF that] s(1) by auto
    with s compute_safe_pids_within [OF e s(1)] show ?thesis by blast
  qed
  have 2: "safe_pids_of w = Some [] \<and> my_pid w \<notin> set (safe_pids_in w)"
    if p: "processes_of w = []"
  proof (cases "reached w")
    case None
    with empty_table_safe_pids [OF p] show ?thesis by (simp add: projections_not_reached)
  next
    case (Some r)
    from reached_report [OF Some] empty_table_safe_pids [OF p] show ?thesis
      by (auto simp: projections_reached [OF Some])
  qed
  have 3: "processes_of w = []" if "ps_call w = PsCalledProcessError"
    using that by (simp add: processes_of_def get_process_map_def)
  have 4: "reached w = None \<and> safe_pids_in w = []" if "ps_call w = PsRaises"
  proof -
    from that have "run_cleanup w = Some Aborted"
      by (simp add: run_cleanup_def decide_pass_def get_process_map_def)
    then have "reached w = None" by (simp add: reached_def)
    then show ?thesis by (simp add: projections_not_reached)
  qed
  from 1 2 3 4 show ?thesis by blast
qed

theorem safe_pids_contain_visible_ancestry_witness:
  "ancestry_ends (processes_of tool_world) (my_pid tool_world)
   \<and> visible_ancestor (processes_of tool_world) (my_pid tool_world) 4242
   \<and> visible_ancestor (processes_of tool_world) (my_pid tool_world) 4000
   \<and> (\<exists>safe_pids. safe_pids_of tool_world = Some safe_pids
         \<and> 4242 \<in> set safe_pids \<and> 4000 \<in> set safe_pids)
   \<and> processes_of quiet_world = []
   \<and> safe_pids_of quiet_world = Some []
   \<and> ps_call failed_world = PsCalledProcessError
   \<and> processes_of failed_world = []
   \<and> safe_pids_of failed_world = Some []
   \<and> ps_call missing_ps_world = PsRaises
   \<and> reached missing_ps_world = None"
proof -
  let ?ps = "processes_of tool_world"
  let ?shell = "\<lparr>p_ppid = 1, p_etimes = Some 7200, p_tty = ''pts/0'', p_comm = ''bash'',
                  p_args = ''-bash''\<rparr>"
  let ?tool = "\<lparr>p_ppid = 4000, p_etimes = Some 0, p_tty = ''pts/0'', p_comm = ''python3'',
                 p_args = ''python3 core.py''\<rparr>"
  have m: "my_pid tool_world = 4242" by code_simp
  have t: "map_of ?ps 4242 = Some ?tool" by code_simp
  have h: "map_of ?ps 4000 = Some ?shell" by code_simp
  have o: "map_of ?ps 1 = None" by code_simp
  have "ancestry_ends ?ps 1" using o by (rule ancestry_ends.leaves)
  then have "ancestry_ends ?ps 4000" using ancestry_ends.climbs [OF h] by simp
  then have e: "ancestry_ends ?ps (my_pid tool_world)"
    using ancestry_ends.climbs [OF t] by (simp add: m)
  have v1: "visible_ancestor ?ps (my_pid tool_world) 4242"
    using visible_ancestor.self [OF t] by (simp add: m)
  have v2: "visible_ancestor ?ps (my_pid tool_world) 4000"
    using visible_ancestor.parent [OF v1 t] h by simp
  have q: "processes_of quiet_world = []" by code_simp
  have f: "ps_call failed_world = PsCalledProcessError" by code_simp
  have x: "ps_call missing_ps_world = PsRaises" by code_simp
  have n: "ps_call tool_world \<noteq> PsRaises" "ps_call quiet_world \<noteq> PsRaises" by code_simp+
  from safe_pids_contain_visible_ancestry [of tool_world] n(1) e v1 v2
  have a: "\<exists>safe_pids. safe_pids_of tool_world = Some safe_pids
             \<and> 4242 \<in> set safe_pids \<and> 4000 \<in> set safe_pids" by blast
  from safe_pids_contain_visible_ancestry [of quiet_world] n(2) q
  have b: "safe_pids_of quiet_world = Some []" by blast
  from safe_pids_contain_visible_ancestry [of failed_world] f
  have c: "processes_of failed_world = []" "safe_pids_of failed_world = Some []" by blast+
  from safe_pids_contain_visible_ancestry [of missing_ps_world] x
  have d: "reached missing_ps_world = None" by blast
  from e v1 v2 a q b f c x d show ?thesis by blast
qed

text \<open>
  C3 as stated fails: when the listing fails the table is empty, the tool's pid is not a
  key of it, and the safe-pid set is empty.
\<close>

theorem safe_pids_without_tool_pid:
  "safe_pids_of failed_world = Some [] \<and> my_pid failed_world = 4242
   \<and> processes_of failed_world = []"
  by code_simp

text \<open>
  C4 (as amended). Every pid on the kill list belongs to a candidate, and unless that
  candidate has a lease-instance mismatch or is a pane miss (it names a pane of a session
  of the active-pane index), the pid is outside the keep tree, and it is outside the
  safe-pid set whenever strict mode is not in force and either no session filter is set
  or the candidate's session is active.
\<close>

theorem kill_list_outside_keep_and_safe:
  assumes "p \<in> set (kill_pids w)"
  shows "\<exists>c \<in> set (candidates_in w). c_pid c = p
           \<and> (lease_mismatch c \<or> pane_miss w c
               \<or> (p \<notin> set (keep_tree_in w)
                   \<and> (\<not> strict_mode w
                        \<and> (session_filter w = None
                             \<or> proc_has_active_session w p (active_sessions_of w))
                       \<longrightarrow> p \<notin> set (safe_pids_in w))))"
proof (cases "reached w")
  case None
  with assms show ?thesis by (simp add: projections_not_reached)
next
  case (Some r)
  then have r: "reached w = Some r" .
  note pr = projections_reached [OF r]
  from reached_report [OF r]
  have k: "r_kill_list r = kill_list_of w (r_safe_pids r) (r_keep_tree r) (r_candidates r)"
    by auto
  from assms obtain c where c: "c \<in> set (r_candidates r)" "c_pid c = p"
      "is_kill (decide w (r_safe_pids r) (r_keep_tree r) c)"
    unfolding pr k kill_list_pids by auto
  show ?thesis
  proof (cases "lease_mismatch c \<or> pane_miss w c")
    case True
    with c show ?thesis by (auto simp: pr)
  next
    case False
    with decide_kill_orphan [OF c(3)] c show ?thesis by (auto simp: pr)
  qed
qed

theorem kill_list_outside_keep_and_safe_witness:
  "kill_pids mixed_world = [300]
   \<and> safe_pids_in mixed_world = [100, 200]
   \<and> keep_tree_in mixed_world = [200]
   \<and> 300 \<notin> set (keep_tree_in mixed_world) \<and> 300 \<notin> set (safe_pids_in mixed_world)"
proof -
  have k: "kill_pids mixed_world = [300]" by code_simp
  have s: "safe_pids_in mixed_world = [100, 200]" by code_simp
  have t: "keep_tree_in mixed_world = [200]" by code_simp
  have m: "300 \<in> set (kill_pids mixed_world)" using k by simp
  have n: "list_all (\<lambda>c. \<not> lease_mismatch c \<and> \<not> pane_miss mixed_world c)
             (filter (\<lambda>c. c_pid c = 300) (candidates_in mixed_world))" by code_simp
  have f: "\<not> strict_mode mixed_world" "session_filter mixed_world = None" by code_simp+
  from kill_list_outside_keep_and_safe [OF m] obtain c where
    c: "c \<in> set (candidates_in mixed_world)" "c_pid c = 300"
    and d: "lease_mismatch c \<or> pane_miss mixed_world c
            \<or> (300 \<notin> set (keep_tree_in mixed_world)
                \<and> (\<not> strict_mode mixed_world
                     \<and> (session_filter mixed_world = None
                          \<or> proc_has_active_session mixed_world 300
                               (active_sessions_of mixed_world))
                    \<longrightarrow> 300 \<notin> set (safe_pids_in mixed_world)))"
    by blast
  from n c have "\<not> lease_mismatch c" "\<not> pane_miss mixed_world c"
    by (simp_all add: list_all_iff)
  with d f
  have "300 \<notin> set (keep_tree_in mixed_world) \<and> 300 \<notin> set (safe_pids_in mixed_world)"
    by blast
  with k s t show ?thesis by simp
qed

text \<open>
  C4 as stated fails, in each of the four ways the amended statement sets apart. The
  agent with the lease-instance mismatch is killed although it is in the safe-pid set
  and in the keep tree; so is the agent that is a pane miss and older than the minimum
  age. In strict mode, and under a session filter with no session of its own, an agent
  under the session manager is killed by the last rule although it is in the safe-pid
  set.
\<close>

theorem kill_list_meets_safe_and_keep:
  "kill_pids lease_world = [200]
   \<and> safe_pids_in lease_world = [100, 200]
   \<and> keep_tree_in lease_world = [200]
   \<and> kill_pids miss_world = [200]
   \<and> safe_pids_in miss_world = [100, 200]
   \<and> keep_tree_in miss_world = [200]
   \<and> kill_pids strict_world = [200]
   \<and> safe_pids_in strict_world = [100, 200]
   \<and> kill_pids filter_world = [200]
   \<and> safe_pids_in filter_world = [100, 200]"
  by code_simp

text \<open>
  C5 (as amended). When the directory-count strategy runs, the kept pids are those chosen
  for some hint, and for every directory hint \<open>d\<close> with \<open>expected_cwds[d] = N\<close> the candidates
  chosen for \<open>d\<close> (\<open>K\<close>) are at most \<open>N\<close> of the candidates whose working directory
  matches \<open>d\<close> (\<open>M\<close>): none of \<open>M\<close> has a kind preferred to that of a chosen one
  (agent_bin before agent_node before other), among those of that kind the higher pids
  are chosen first, and one is chosen whenever \<open>M\<close> is not empty and \<open>N\<close> is positive.
\<close>

theorem directory_count_keeps_at_most_expected:
  fixes w d
  defines "cands \<equiv> candidates_in w"
      and "K \<equiv> keep_for_cwd (expected_cwds w) (candidates_in w) d"
      and "M \<equiv> filter (\<lambda>c. cwd_matches (c_cwd c) d) (candidates_in w)"
  assumes "directory_strategy_runs w cands"
  shows "set (keep_pids_in w)
           = (\<Union>d' \<in> fst ` set (expected_cwds w).
                 c_pid ` set (keep_for_cwd (expected_cwds w) cands d'))
         \<and> length K \<le> counter_get (expected_cwds w) d
         \<and> set K \<subseteq> set M
         \<and> (\<forall>c \<in> set K. \<forall>c' \<in> set M. kind_preference (c_kind c) \<le> kind_preference (c_kind c'))
         \<and> (\<forall>c \<in> set K. \<forall>c' \<in> set M. c_kind c' = c_kind c \<and> c_pid c < c_pid c' \<longrightarrow> c' \<in> set K)
         \<and> (M \<noteq> [] \<and> 0 < counter_get (expected_cwds w) d \<longrightarrow> K \<noteq> [])"
proof -
  have 1: "set (keep_pids_in w)
             = (\<Union>d' \<in> fst ` set (expected_cwds w).
                   c_pid ` set (keep_for_cwd (expected_cwds w) cands d'))"
  proof (cases "reached w")
    case None
    then have "keep_pids_in w = []" "cands = []"
      by (simp_all add: keep_pids_in_def candidates_in_def cands_def)
    then show ?thesis by (simp add: keep_for_cwd_def)
  next
    case (Some r)
    with keep_pids_in_eq [of w] have "keep_pids_in w = keep_pids_of w cands"
      by (simp add: cands_def)
    with keep_pids_of_directory [OF assms(4)] show ?thesis by simp
  qed
  show ?thesis
    using 1 keep_for_cwd_props [where exp = "expected_cwds w" and cands = "candidates_in w" and d = d]
    unfolding K_def M_def by blast
qed

theorem directory_count_keeps_at_most_expected_witness:
  "directory_strategy_runs choice_world (candidates_in choice_world)
   \<and> counter_get (expected_cwds choice_world) ''/home/u/proj/a'' = 1
   \<and> candidates_in choice_world
       = [choice_candidate 50 100 ''claude'' ''claude'' agent_bin,
          choice_candidate 55 90 ''codex'' ''codex'' agent_bin,
          choice_candidate 60 80 ''python3'' ''python3 claude_helper.py'' other]
   \<and> keep_for_cwd (expected_cwds choice_world) (candidates_in choice_world) ''/home/u/proj/a''
       = [choice_candidate 55 90 ''codex'' ''codex'' agent_bin]
   \<and> set (keep_pids_in choice_world) = {55}
   \<and> length (keep_for_cwd (expected_cwds choice_world) (candidates_in choice_world)
                ''/home/u/proj/a'') \<le> 1"
proof -
  let ?d = "''/home/u/proj/a''"
  have r: "directory_strategy_runs choice_world (candidates_in choice_world)" by code_simp
  have n: "counter_get (expected_cwds choice_world) ?d = 1" by code_simp
  have c: "candidates_in choice_world
             = [choice_candidate 50 100 ''claude'' ''claude'' agent_bin,
                choice_candidate 55 90 ''codex'' ''codex'' agent_bin,
                choice_candidate 60 80 ''python3'' ''python3 claude_helper.py'' other]"
    by code_simp
  have k: "keep_for_cwd (expected_cwds choice_world) (candidates_in choice_world) ?d
             = [choice_candidate 55 90 ''codex'' ''codex'' agent_bin]" by code_simp
  have e: "fst ` set (expected_cwds choice_world) = {?d}" by code_simp
  have p: "c_pid (choice_candidate 55 90 ''codex'' ''codex'' agent_bin) = 55" by code_simp
  from directory_count_keeps_at_most_expected [OF r, where d = ?d]
  have "set (keep_pids_in choice_world) = {55}"
    and "length (keep_for_cwd (expected_cwds choice_world) (candidates_in choice_world) ?d)
           \<le> counter_get (expected_cwds choice_world) ?d"
    unfolding e by (simp_all add: k p)
  with r n c k show ?thesis by simp
qed

text \<open>
  C5 as stated fails where one hint lies below another: one agent is expected in the
  project directory, two candidates match it, and both are kept, the second on account
  of the hint for the directory below.
\<close>

theorem overlapping_hints_keep_more:
  "candidates_in overlap_world
     = [overlap_candidate 300 100 ''claude'' ''claude'' ''/home/u/proj'' agent_bin,
        overlap_candidate 310 80 ''python3'' ''python3 claude_helper.py'' ''/home/u/proj/sub'' other]
   \<and> directory_strategy_runs overlap_world (candidates_in overlap_world)
   \<and> counter_get (expected_cwds overlap_world) ''/home/u/proj'' = 1
   \<and> cwd_matches ''/home/u/proj'' ''/home/u/proj''
   \<and> cwd_matches ''/home/u/proj/sub'' ''/home/u/proj''
   \<and> keep_pids_in overlap_world = [300, 310]"
  by code_simp

text \<open>
  C6 (as amended). On the same world, a dry run sends no signal and deletes no snapshot
  file, has the same kill list as a real run (so the same kill count), reaches the kill
  list exactly when the real run does and returns exactly when the real run does. Whenever
  the real run reports a pruned-snapshot count (it was not interrupted by an exception of
  \<open>os.kill\<close> or \<open>os.listdir\<close>), the dry run reports one too: the number of stale
  snapshots, which is never less than the number the real run removed and is the same
  when every removal succeeds.
\<close>

theorem dry_run_same_kills_and_stale_count:
  "signals_in (w\<lparr>dry_run := True\<rparr>) = []
   \<and> deleted_in (w\<lparr>dry_run := True\<rparr>) = []
   \<and> kill_list_in (w\<lparr>dry_run := True\<rparr>) = kill_list_in (w\<lparr>dry_run := False\<rparr>)
   \<and> (reached (w\<lparr>dry_run := True\<rparr>) = None \<longleftrightarrow> reached (w\<lparr>dry_run := False\<rparr>) = None)
   \<and> (run_cleanup (w\<lparr>dry_run := True\<rparr>) = None \<longleftrightarrow> run_cleanup (w\<lparr>dry_run := False\<rparr>) = None)
   \<and> (\<forall>n. removed_in (w\<lparr>dry_run := False\<rparr>) = Some n \<longrightarrow>
          (\<exists>m. removed_in (w\<lparr>dry_run := True\<rparr>) = Some m \<and> n \<le> m
               \<and> ((\<forall>e \<in> set (stale_files w). f_remove (snd e) = Removed) \<longrightarrow> m = n)))"
proof -
  let ?d = "w\<lparr>dry_run := True\<rparr>" and ?r = "w\<lparr>dry_run := False\<rparr>"
  have t: "(\<forall>e \<in> set xs. f_remove (snd e) = Removed)
            \<Longrightarrow> filter (\<lambda>e. f_remove (snd e) = Removed) xs = xs"
    for xs :: "(string \<times> snapshot_file) list"
    by (induction xs) auto
  show ?thesis
  proof (cases "\<exists>r0. decide_pass w = Some (Inr r0)")
    case False
    then have a: "\<forall>r0. decide_pass ?d \<noteq> Some (Inr r0)" "\<forall>r0. decide_pass ?r \<noteq> Some (Inr r0)"
      by (simp_all add: decide_pass_dry)
    from undecided_projections [OF a(1)] undecided_projections [OF a(2)]
    show ?thesis by (simp add: projections_not_reached decide_pass_dry)
  next
    case True
    then obtain r0 where d: "decide_pass ?d = Some (Inr r0)" "decide_pass ?r = Some (Inr r0)"
      by (auto simp: decide_pass_dry)
    note pd = decided_projections [OF d(1)] and pr = decided_projections [OF d(2)]
    have rd: "reached ?d = Some (r0\<lparr>r_signals := [], r_deleted_snapshots := []\<rparr>)
              \<or> reached ?d = Some (r0\<lparr>r_signals := [], r_removed_snapshots := length (stale_files w),
                                     r_deleted_snapshots := []\<rparr>)"
      using pd(1) by (auto simp: reached_def execute_pass_dry)
    then have 1: "signals_in ?d = []" "deleted_in ?d = []"
      by (auto simp: signals_in_def deleted_in_def)
    have 6: "\<exists>m. removed_in ?d = Some m \<and> n \<le> m
               \<and> ((\<forall>e \<in> set (stale_files w). f_remove (snd e) = Removed) \<longrightarrow> m = n)"
      if "removed_in ?r = Some n" for n
    proof -
      from that pr(1) obtain r where
        c: "execute_pass ?r r0 = Completed r" and n: "n = r_removed_snapshots r"
        by (auto simp: removed_in_def split: outcome.splits)
      from execute_pass_real_completed [OF c]
      have q: "\<not> snd (snd (prune_runtime_snapshots w))"
        and m: "n = length (filter (\<lambda>e. f_remove (snd e) = Removed) (stale_files w))"
        using n by simp_all
      have "removed_in ?d = Some (length (stale_files w))"
        using pd(1) q by (simp add: removed_in_def execute_pass_dry)
      with m t [of "stale_files w"] show ?thesis by auto
    qed
    from pd(3) pr(3)
    have 4: "reached ?d = None \<longleftrightarrow> reached ?r = None" by auto
    from pd(1) pr(1)
    have 5: "run_cleanup ?d = None \<longleftrightarrow> run_cleanup ?r = None" by auto
    from pd(2) pr(2) have 3: "kill_list_in ?d = kill_list_in ?r" by simp
    from 1 3 4 5 6 show ?thesis by blast
  qed
qed

theorem dry_run_same_kills_and_stale_count_witness:
  "map (f_remove \<circ> snd) (stale_files prune_world) = [Removed]
   \<and> signals_in (prune_world\<lparr>dry_run := True\<rparr>) = []
   \<and> deleted_in (prune_world\<lparr>dry_run := True\<rparr>) = []
   \<and> kill_list_in (prune_world\<lparr>dry_run := True\<rparr>) = [(200, ''claude'')]
   \<and> kill_list_in (prune_world\<lparr>dry_run := False\<rparr>) = [(200, ''claude'')]
   \<and> removed_in (prune_world\<lparr>dry_run := True\<rparr>) = Some 1
   \<and> removed_in (prune_world\<lparr>dry_run := False\<rparr>) = Some 1
   \<and> signals_in (prune_world\<lparr>dry_run := False\<rparr>) = [(200, SIGTERM), (200, SIGKILL)]
   \<and> deleted_in (prune_world\<lparr>dry_run := False\<rparr>) = [(''main'', ''9.json'')]"
proof -
  have m: "map (f_remove \<circ> snd) (stale_files prune_world) = [Removed]" by code_simp
  then have a: "\<forall>e \<in> set (stale_files prune_world). f_remove (snd e) = Removed"
    by (cases "stale_files prune_world") auto
  have k: "kill_list_in (prune_world\<lparr>dry_run := False\<rparr>) = [(200, ''claude'')]" by code_simp
  have r: "removed_in (prune_world\<lparr>dry_run := False\<rparr>) = Some 1" by code_simp
  have s: "signals_in (prune_world\<lparr>dry_run := False\<rparr>) = [(200, SIGTERM), (200, SIGKILL)]"
    by code_simp
  have d: "deleted_in (prune_world\<lparr>dry_run := False\<rparr>) = [(''main'', ''9.json'')]"
    by code_simp
  from dry_run_same_kills_and_stale_count [of prune_world] a r
  have "removed_in (prune_world\<lparr>dry_run := True\<rparr>) = Some 1" by auto
  with dry_run_same_kills_and_stale_count [of prune_world] m k r s d show ?thesis by simp
qed

text \<open>
  C6, as first stated, fails in \<open>locked_world\<close>: its one stale snapshot cannot be
  removed, so the dry run reports one pruned snapshot and the real run, which runs to
  its end, reports none.
\<close>

theorem dry_run_counts_unremovable_snapshot:
  "removed_in (locked_world\<lparr>dry_run := True\<rparr>) = Some 1
   \<and> removed_in (locked_world\<lparr>dry_run := False\<rparr>) = Some 0
   \<and> deleted_in (locked_world\<lparr>dry_run := False\<rparr>) = []"
  by code_simp

text \<open>
  C7 (code defect). \<open>get_process_map\<close> catches only \<open>CalledProcessError\<close>. When the
  process listing fails in another way (the \<open>ps\<close> executable is missing, or its output
  cannot be decoded), as in \<open>missing_ps_world\<close>, it returns no maps at all: the exception
  leaves \<open>run_cleanup\<close>, which ends without a report. Nothing is killed, but the empty
  maps of the specification are not returned.
\<close>

theorem uncaught_listing_failure_aborts_pass:
  "ps_call missing_ps_world = PsRaises
   \<and> get_process_map (py_int missing_ps_world) (ps_call missing_ps_world) = None
   \<and> run_cleanup missing_ps_world = Some Aborted
   \<and> kill_list_in missing_ps_world = []
   \<and> signals_in missing_ps_world = []"
  by code_simp

text \<open>
  C8 (as amended). A candidate that has both a session and a pane id recorded is retained
  by rule 8 only through the command hint: its command matches an active command, and
  strict mode is not in force. The directory hint alone never retains it.
\<close>

theorem rule8_with_identity_needs_command_hint:
  assumes "(c, RetainActiveHit) \<in> set (verdicts_in w)"
      and "c_session c \<noteq> []" and "c_pane_id c \<noteq> []"
  shows "command_hit w c \<and> \<not> strict_mode w"
proof (cases "reached w")
  case None
  with assms show ?thesis by (simp add: projections_not_reached)
next
  case (Some r)
  then have r: "reached w = Some r" .
  from reached_report [OF r]
  have v: "r_verdicts r = map (decide w (r_safe_pids r) (r_keep_tree r)) (r_candidates r)"
    by auto
  from assms(1) have "decide w (r_safe_pids r) (r_keep_tree r) c = RetainActiveHit"
    unfolding projections_reached [OF r] v by (auto simp: zip_map_self)
  from decide_active_hit [OF this assms(2,3)] show ?thesis by simp
qed

theorem rule8_with_identity_needs_command_hint_witness:
  "(hint_candidate, RetainActiveHit) \<in> set (verdicts_in hint_world)
   \<and> c_session hint_candidate \<noteq> [] \<and> c_pane_id hint_candidate \<noteq> []
   \<and> command_hit hint_world hint_candidate \<and> \<not> strict_mode hint_world"
proof -
  have a: "(hint_candidate, RetainActiveHit) \<in> set (verdicts_in hint_world)" by code_simp
  have b: "c_session hint_candidate \<noteq> []" "c_pane_id hint_candidate \<noteq> []" by code_simp+
  from rule8_with_identity_needs_command_hint [OF a b] a b show ?thesis by blast
qed

text \<open>
  C8 as stated fails: the agent records session and pane id, and rule 8 retains it
  because its command matches an active command.
\<close>

theorem rule8_retains_candidate_with_identity:
  "verdicts_in hint_world = [(hint_candidate, RetainActiveHit)]
   \<and> c_session hint_candidate = ''gone'' \<and> c_pane_id hint_candidate = ''7''
   \<and> \<not> strict_mode hint_world
   \<and> kill_pids hint_world = []"
  by code_simp

text \<open>
  C9. Every pid on the kill list is a key of the parsed process table and occurs once.
  The pids signalled in the SIGTERM phase, and those signalled in the SIGKILL phase, are
  an initial segment of the kill list, in order: so no pid outside the process table is
  signalled and none is signalled twice in a phase. A dry run sends nothing; when no
  signal is refused with an error other than \<open>ProcessLookupError\<close>, each phase of a real
  run signals the whole kill list.
\<close>

theorem kill_list_pids_observed_once:
  "set (kill_pids w) \<subseteq> fst ` set (processes_of w) \<and> distinct (kill_pids w)
   \<and> (\<exists>n. map fst (filter (\<lambda>s. snd s = SIGTERM) (signals_in w)) = take n (kill_pids w))
   \<and> (\<exists>n. map fst (filter (\<lambda>s. snd s = SIGKILL) (signals_in w)) = take n (kill_pids w))
   \<and> (dry_run w \<longrightarrow> signals_in w = [])
   \<and> ((\<forall>pid sg. os_kill w pid sg \<noteq> OtherOSError) \<longrightarrow>
         map fst (filter (\<lambda>s. snd s = SIGTERM) (signals_in w))
           = (if dry_run w then [] else kill_pids w)
       \<and> map fst (filter (\<lambda>s. snd s = SIGKILL) (signals_in w))
           = (if dry_run w then [] else kill_pids w))"
proof (cases "reached w")
  case None
  have "\<exists>n. ([] :: int list) = take n []" by simp
  with None show ?thesis by (simp add: projections_not_reached)
next
  case (Some r)
  note pr = projections_reached [OF Some]
  from reached_report [OF Some] obtain safe_pids where
    c: "r_candidates r = agent_candidates w safe_pids (processes_of w)"
    and k: "r_kill_list r = kill_list_of w safe_pids (r_keep_tree r) (r_candidates r)"
    and s: "r_signals r = fst (send_signals (dry_run w) (os_kill w) (r_kill_list r))" by auto
  have d: "distinct (map c_pid (r_candidates r))"
    unfolding c by (simp add: candidates_distinct distinct_processes)
  have "set (map fst (r_kill_list r)) \<subseteq> set (map c_pid (r_candidates r))"
    unfolding k kill_list_pids by auto
  then have 1: "set (kill_pids w) \<subseteq> fst ` set (processes_of w)"
    using candidates_subset [of w safe_pids "processes_of w"] unfolding pr c by blast
  have 2: "distinct (kill_pids w)"
    unfolding pr k kill_list_pids using d by (simp add: distinct_map_filter)
  have 3: "\<exists>n. map fst (filter (\<lambda>s. snd s = sg) (signals_in w)) = take n (kill_pids w)" for sg
    unfolding pr s by (rule send_signals_phases)
  have 4: "dry_run w \<longrightarrow> signals_in w = []"
    unfolding pr s by (simp add: send_signals_def)
  have 5: "map fst (filter (\<lambda>s. snd s = sg) (signals_in w)) = (if dry_run w then [] else kill_pids w)"
    if "\<forall>pid sg. os_kill w pid sg \<noteq> OtherOSError" for sg
    unfolding pr s by (rule send_signals_all [OF that])
  show ?thesis using 1 2 3 4 5 by blast
qed

theorem kill_list_pids_observed_once_witness:
  "kill_pids orphan_world = [300] \<and> 300 \<in> fst ` set (processes_of orphan_world)
   \<and> signals_in orphan_world = [(300, SIGTERM), (300, SIGKILL)]
   \<and> map fst (filter (\<lambda>s. snd s = SIGTERM) (signals_in orphan_world)) = [300]
   \<and> map fst (filter (\<lambda>s. snd s = SIGKILL) (signals_in orphan_world)) = [300]"
proof -
  have k: "kill_pids orphan_world = [300]" by code_simp
  have s: "signals_in orphan_world = [(300, SIGTERM), (300, SIGKILL)]" by code_simp
  have d: "\<not> dry_run orphan_world" by code_simp
  have o: "\<forall>pid sg. os_kill orphan_world pid sg \<noteq> OtherOSError"
    by (simp add: orphan_world_def quiet_world_def)
  from kill_list_pids_observed_once [of orphan_world] k s d o show ?thesis by auto
qed

text \<open>
  C10. Whenever the value of a switch, stripped, is non-empty and parses as an integer
  strictly below the minimum, \<open>env_int\<close> returns the minimum and prints no warning (for
  the minimum-process-age switch the minimum is 0). A warning is printed only when the
  stripped value is non-empty and fails to parse, and then the default is returned.
\<close>

theorem env_int_below_minimum:
  "(environ name = Some v \<and> strip v \<noteq> [] \<and> to_int (strip v) = Some n \<and> n < minimum
      \<longrightarrow> env_int to_int environ name dflt minimum = (minimum, None))
   \<and> (snd (env_int to_int environ name dflt minimum) \<noteq> None
      \<longrightarrow> (\<exists>v. environ name = Some v \<and> strip v \<noteq> [] \<and> to_int (strip v) = None)
          \<and> env_int to_int environ name dflt minimum
              = (dflt, Some (MustBeInteger name dflt)))"
proof (intro conjI impI)
  assume "environ name = Some v \<and> strip v \<noteq> [] \<and> to_int (strip v) = Some n \<and> n < minimum"
  then show "env_int to_int environ name dflt minimum = (minimum, None)"
    by (simp add: env_int_def Let_def)
next
  assume w: "snd (env_int to_int environ name dflt minimum) \<noteq> None"
  show "\<exists>v. environ name = Some v \<and> strip v \<noteq> [] \<and> to_int (strip v) = None"
  proof (cases "environ name")
    case None
    with w show ?thesis by (simp add: env_int_def strip_def Let_def)
  next
    case (Some v)
    with w have "strip v \<noteq> [] \<and> to_int (strip v) = None"
      by (cases "to_int (strip v)") (auto simp: env_int_def Let_def split: if_splits)
    with Some show ?thesis by simp
  qed
  from w show "env_int to_int environ name dflt minimum = (dflt, Some (MustBeInteger name dflt))"
    by (cases "to_int (strip (case environ name of None \<Rightarrow> [] | Some v \<Rightarrow> v))")
       (simp_all add: env_int_def Let_def split: if_splits)
qed

theorem env_int_below_minimum_witness:
  "min_process_age_secs int_literal [''AOC_CLEANUP_MIN_PROCESS_AGE_SECS'' \<mapsto> '' -5 ''] = (0, None)
   \<and> min_process_age_secs int_literal [''AOC_CLEANUP_MIN_PROCESS_AGE_SECS'' \<mapsto> ''5s'']
       = (0, Some (MustBeInteger ''AOC_CLEANUP_MIN_PROCESS_AGE_SECS'' 0))"
proof -
  let ?k = "''AOC_CLEANUP_MIN_PROCESS_AGE_SECS''"
  have s: "strip '' -5 '' = ''-5''" "strip ''5s'' = ''5s''"
    by (simp_all add: strip_def is_space_def)
  have p: "int_literal ''-5'' = Some (- 5)" "int_literal ''5s'' = None"
    by (simp_all add: int_literal_def digit_of_def)
  have a: "env_int int_literal [?k \<mapsto> '' -5 ''] ?k 0 0 = (0, None)"
    using env_int_below_minimum [of "[?k \<mapsto> '' -5 '']" ?k "'' -5 ''" int_literal "- 5" 0 0]
    by (simp add: s p)
  have w: "snd (env_int int_literal [?k \<mapsto> ''5s''] ?k 0 0) \<noteq> None"
    by (simp add: env_int_def Let_def s p)
  have b: "env_int int_literal [?k \<mapsto> ''5s''] ?k 0 0 = (0, Some (MustBeInteger ?k 0))"
    using env_int_below_minimum [of "[?k \<mapsto> ''5s'']" ?k _ int_literal _ 0 0] w by blast
  show ?thesis using a b by (simp add: min_process_age_secs_def)
qed

end
